theory Spec2Isabelle
  imports Complex_Main "HOL-Library.Sublist" "HOL-Library.Multiset"
begin

section \<open>Python values shared by the models\<close>

text \<open>
  A raised Python exception is carried as a value; the only observation the program
  makes of one is \<open>str(e)\<close>, its message.
\<close>

datatype exn = Exception (str: string)

text \<open>
  \<open>sub in s\<close> on Python strings: \<open>sub\<close> occurs in \<open>s\<close> as a contiguous run
  of characters.
\<close>

fun py_in :: "string \<Rightarrow> string \<Rightarrow> bool" where
  "py_in sub [] = (sub = [])"
| "py_in sub (c # cs) = (prefix sub (c # cs) \<or> py_in sub cs)"

section \<open>Model loading (\<open>load_model_safely\<close>)\<close>

text \<open>
  \<open>tf.keras.models.load_model(path, custom_objects=..., compile=False)\<close> is the
  outside world: an oracle from the path and the \<open>custom_objects\<close> dictionary to
  either a raised exception or a model. The dictionary is an association list from layer
  names to layer factories; the plain call passes none.  The only factory the program
  defines is \<open>CustomDepthwiseConv2D\<close>, which deletes the \<open>groups\<close> keyword before
  calling the constructor it inherits.
\<close>

datatype layer_factory = CustomDepthwiseConv2D

type_synonym custom_objects = "(string \<times> layer_factory) list"

type_synonym 'm keras = "string \<Rightarrow> custom_objects \<Rightarrow> exn + 'm"

text \<open>What the function does to the outside world, in order.\<close>

datatype load_effect = LoadModel string custom_objects | Print string

definition load_model_safely :: "'m keras \<Rightarrow> string \<Rightarrow> (exn + 'm) \<times> load_effect list" where
  "load_model_safely load_model model_path =
     (case load_model model_path [] of
        Inr model \<Rightarrow> (Inr model, [LoadModel model_path []])
      | Inl e \<Rightarrow>
          (let error_str = str e in
           if py_in ''DepthwiseConv2D'' error_str \<and> py_in ''groups'' error_str
           then (let objs = [(''DepthwiseConv2D'', CustomDepthwiseConv2D)] in
                 (load_model model_path objs,
                  [LoadModel model_path [],
                   Print ''Detected DepthwiseConv2D issue, trying custom loader...'',
                   LoadModel model_path objs]))
           else (Inl e, [LoadModel model_path []])))"

text \<open>The load attempts among the effects.\<close>

fun is_load :: "load_effect \<Rightarrow> bool" where
  "is_load (LoadModel _ _) = True"
| "is_load (Print _) = False"

definition load_attempts :: "(exn + 'm) \<times> load_effect list \<Rightarrow> load_effect list" where
  "load_attempts r = filter is_load (snd r)"

text \<open>
  The retry is recognisable among the effects: it is the load that passes the substitute
  factory under the layer's name.
\<close>

fun uses_substitute :: "load_effect \<Rightarrow> bool" where
  "uses_substitute (LoadModel _ objs) = (map_of objs ''DepthwiseConv2D'' = Some CustomDepthwiseConv2D)"
| "uses_substitute (Print _) = False"

definition retried :: "(exn + 'm) \<times> load_effect list \<Rightarrow> bool" where
  "retried r = list_ex uses_substitute (snd r)"

section \<open>Batching (\<open>for i in range(0, total_files, batch_size)\<close>)\<close>

text \<open>
  \<open>range(start, stop, step)\<close> on Python integers: counting up for a positive step,
  counting down for a negative one, \<open>ValueError\<close> for a zero step.
\<close>

function range_up :: "int \<Rightarrow> int \<Rightarrow> int \<Rightarrow> int list" where
  "range_up i stop step =
     (if 0 < step \<and> i < stop then i # range_up (i + step) stop step else [])"
  by pat_completeness auto
termination
  by (relation "measure (\<lambda>(i, stop, step). nat (stop - i))") auto

function range_down :: "int \<Rightarrow> int \<Rightarrow> int \<Rightarrow> int list" where
  "range_down i stop step =
     (if step < 0 \<and> stop < i then i # range_down (i + step) stop step else [])"
  by pat_completeness auto
termination
  by (relation "measure (\<lambda>(i, stop, step). nat (i - stop))") auto

declare range_up.simps [simp del] range_down.simps [simp del]

definition py_range :: "int \<Rightarrow> int \<Rightarrow> int \<Rightarrow> exn + int list" where
  "py_range start stop step =
     (if step = 0 then Inl (Exception ''range() arg 3 must not be zero'')
      else if 0 < step then Inr (range_up start stop step)
      else Inr (range_down start stop step))"

text \<open>
  The slice \<open>xs[i:j]\<close>: a negative bound counts from the end, and both bounds are
  clipped to the list.
\<close>

definition py_slice :: "'a list \<Rightarrow> int \<Rightarrow> int \<Rightarrow> 'a list" where
  "py_slice xs i j =
     (let n = int (length xs);
          clip = (\<lambda>k. if k < 0 then max 0 (n + k) else min n k);
          a = clip i;
          b = clip j
      in take (nat (b - a)) (drop (nat a) xs))"

text \<open>
  The batches the loop of \<open>run\<close> walks through, in order:
  \<open>image_files[i : i + batch_size]\<close> for each \<open>i\<close> of the range.
\<close>

definition batches :: "'a list \<Rightarrow> int \<Rightarrow> exn + 'a list list" where
  "batches image_files batch_size =
     (case py_range 0 (int (length image_files)) batch_size of
        Inl e \<Rightarrow> Inl e
      | Inr starts \<Rightarrow>
          Inr (map (\<lambda>i. py_slice image_files i (i + batch_size)) starts))"

section \<open>Python floats\<close>

text \<open>
  A finite Python float is an IEEE 754 double: a real number with a significand of 53
  bits. Each arithmetic operation on floats gives the exact result rounded to the
  nearest double, a tie going to the double whose significand is even. The model keeps
  the value of a float as a real number and writes the rounding out. It covers the
  finite doubles of the normal range; infinities, NaN, overflow and the subnormal
  numbers are outside it.
\<close>

text \<open>Rounding a real number to the nearest integer, a tie going to the even one.\<close>

definition rne :: "real \<Rightarrow> int" where
  "rne x =
     (let n = \<lfloor>x\<rfloor>; d = x - of_int n
      in if d < 1 / 2 then n
         else if 1 / 2 < d then n + 1
         else if even n then n else n + 1)"

text \<open>
  The binary exponent of a positive number \<open>x\<close>, the \<open>e\<close> with
  \<open>2 ^ e \<le> x < 2 ^ (e + 1)\<close>, found by halving or doubling.
\<close>

function expo_up :: "real \<Rightarrow> int" where
  "expo_up x = (if 2 \<le> x then expo_up (x / 2) + 1 else 0)"
  by pat_completeness auto
termination
proof (relation "measure (\<lambda>x. nat \<lfloor>x\<rfloor>)")
  show "wf (measure (\<lambda>x::real. nat \<lfloor>x\<rfloor>))" by simp
next
  fix x :: real
  assume x: "2 \<le> x"
  have "x / 2 \<le> x - 1" using x by simp
  then have "\<lfloor>x / 2\<rfloor> \<le> \<lfloor>x - 1\<rfloor>" by (rule floor_mono)
  moreover have "\<lfloor>x - 1\<rfloor> = \<lfloor>x\<rfloor> - 1" by simp
  moreover have "2 \<le> \<lfloor>x\<rfloor>" using x by (simp add: le_floor_iff)
  ultimately show "(x / 2, x) \<in> measure (\<lambda>x. nat \<lfloor>x\<rfloor>)" by simp
qed

function expo_down :: "real \<Rightarrow> int" where
  "expo_down x = (if 0 < x \<and> x < 1 then expo_down (2 * x) - 1 else 0)"
  by pat_completeness auto
termination
proof (relation "measure (\<lambda>x. nat \<lceil>1 / x\<rceil>)")
  show "wf (measure (\<lambda>x::real. nat \<lceil>1 / x\<rceil>))" by simp
next
  fix x :: real
  assume x: "0 < x \<and> x < 1"
  then have y: "1 < 1 / x" by simp
  then have c2: "2 \<le> \<lceil>1 / x\<rceil>" by (simp add: le_ceiling_iff)
  have "1 / x \<le> of_int \<lceil>1 / x\<rceil>" by (rule le_of_int_ceiling)
  then have "1 / (2 * x) \<le> of_int \<lceil>1 / x\<rceil> / 2" by simp
  also have "\<dots> \<le> of_int (\<lceil>1 / x\<rceil> - 1)" using c2 by simp
  finally have "\<lceil>1 / (2 * x)\<rceil> \<le> \<lceil>1 / x\<rceil> - 1" by (rule ceiling_le)
  with c2 x show "(2 * x, x) \<in> measure (\<lambda>x. nat \<lceil>1 / x\<rceil>)" by simp
qed

declare expo_up.simps [simp del] expo_down.simps [simp del]

definition exponent :: "real \<Rightarrow> int" where
  "exponent x = (if 1 \<le> x then expo_up x else expo_down x)"

text \<open>
  Rounding to the nearest double: the significand is scaled to 53 bits, so to an integer
  between \<open>2 ^ 52\<close> and \<open>2 ^ 53\<close>, and rounded there.
\<close>

definition fl53 :: "real \<Rightarrow> real" where
  "fl53 x =
     (if x = 0 then 0
      else (let q = 2 powi (exponent \<bar>x\<bar> - 52)
            in sgn x * (of_int (rne (\<bar>x\<bar> / q)) * q)))"

text \<open>\<open>int(x)\<close> of a float drops the fraction: it rounds towards zero.\<close>

definition py_int :: "real \<Rightarrow> int" where
  "py_int x = (if 0 \<le> x then \<lfloor>x\<rfloor> else \<lceil>x\<rceil>)"

text \<open>\<open>min(a, b)\<close> gives the first argument unless the second is smaller.\<close>

definition py_min :: "real \<Rightarrow> real \<Rightarrow> real" where
  "py_min a b = (if b < a then b else a)"

section \<open>Colour adjustment (\<open>ThemeManager._adjust_color\<close>)\<close>

subsection \<open>Parsing the colour\<close>

text \<open>\<open>s.lstrip(chars)\<close> drops every leading character that is among \<open>chars\<close>.\<close>

definition py_lstrip :: "string \<Rightarrow> string \<Rightarrow> string" where
  "py_lstrip s chars = dropWhile (\<lambda>c. c \<in> set chars) s"

text \<open>The value of a hexadecimal digit, in either case.\<close>

definition hex_digit :: "char \<Rightarrow> nat option" where
  "hex_digit c =
     (let n = (of_char c :: nat)
      in if 48 \<le> n \<and> n \<le> 57 then Some (n - 48)
         else if 97 \<le> n \<and> n \<le> 102 then Some (n - 87)
         else if 65 \<le> n \<and> n \<le> 70 then Some (n - 55)
         else None)"

text \<open>
  The characters \<open>int()\<close> skips at both ends of its argument: tab to carriage
  return, the four separators, space, and (characters being code points up to 255)
  next-line and no-break space.
\<close>

definition is_space :: "char \<Rightarrow> bool" where
  "is_space c =
     (let n = (of_char c :: nat)
      in (9 \<le> n \<and> n \<le> 13) \<or> (28 \<le> n \<and> n \<le> 32) \<or> n = 133 \<or> n = 160)"

definition py_strip :: "string \<Rightarrow> string" where
  "py_strip s = rev (dropWhile is_space (rev (dropWhile is_space s)))"

fun digits_value :: "nat \<Rightarrow> string \<Rightarrow> nat option" where
  "digits_value acc [] = Some acc"
| "digits_value acc (c # cs) =
     (case hex_digit c of
        None \<Rightarrow> None
      | Some d \<Rightarrow> digits_value (16 * acc + d) cs)"

text \<open>
  \<open>int(s, 16)\<close> for the arguments \<open>_adjust_color\<close> passes, which are slices of at
  most two characters: surrounding whitespace is skipped, one sign is accepted, and what
  is left must be hexadecimal digits, at least one. (A \<open>0x\<close> prefix or an underscore
  between digits needs three characters.) Anything else raises \<open>ValueError\<close>; the
  message quotes the argument.
\<close>

definition py_int16 :: "string \<Rightarrow> exn + int" where
  "py_int16 s =
     (let t = py_strip s;
          negative = (t \<noteq> [] \<and> hd t = CHR ''-'');
          body = (if t \<noteq> [] \<and> (hd t = CHR ''-'' \<or> hd t = CHR ''+'') then tl t else t);
          err = Exception (''invalid literal for int() with base 16: ''
                             @ [CHR 0x27] @ s @ [CHR 0x27])
      in if body = [] then Inl err
         else (case digits_value 0 body of
                 None \<Rightarrow> Inl err
               | Some n \<Rightarrow> Inr (if negative then - int n else int n)))"

text \<open>
  The first two lines of the body: strip the leading \<open>#\<close>, then read the three pairs
  of digits from left to right.
\<close>

definition hex_to_rgb :: "string \<Rightarrow> exn + int \<times> int \<times> int" where
  "hex_to_rgb hex_color =
     (let h = py_lstrip hex_color ''#''
      in case py_int16 (py_slice h 0 2) of
           Inl e \<Rightarrow> Inl e
         | Inr r \<Rightarrow>
             (case py_int16 (py_slice h 2 4) of
                Inl e \<Rightarrow> Inl e
              | Inr g \<Rightarrow>
                  (case py_int16 (py_slice h 4 6) of
                     Inl e \<Rightarrow> Inl e
                   | Inr b \<Rightarrow> Inr (r, g, b))))"

subsection \<open>The two adjustments of a channel\<close>

text \<open>\<open>int(c * brightness_factor)\<close>: the product is a float product.\<close>

definition darken :: "int \<Rightarrow> real \<Rightarrow> int" where
  "darken c brightness_factor = py_int (fl53 (of_int c * brightness_factor))"

text \<open>
  \<open>int(min(c + (255 - c) * (brightness_factor - 1), 255))\<close>: the difference, the
  product and the sum are float operations, each rounded.
\<close>

definition lighten :: "int \<Rightarrow> real \<Rightarrow> int" where
  "lighten c brightness_factor =
     py_int (py_min (fl53 (of_int c + fl53 (of_int (255 - c) * fl53 (brightness_factor - 1)))) 255)"

subsection \<open>Formatting the result\<close>

text \<open>The format \<open>02x\<close>: lowercase hexadecimal, padded with zeros to two characters.\<close>

definition hex_char :: "nat \<Rightarrow> char" where
  "hex_char d = char_of (if d < 10 then 48 + d else 87 + d)"

function hex_digits :: "nat \<Rightarrow> string" where
  "hex_digits n = (if n < 16 then [hex_char n] else hex_digits (n div 16) @ [hex_char (n mod 16)])"
  by pat_completeness auto
termination
  by (relation "measure (\<lambda>n. n)") auto

declare hex_digits.simps [simp del]

definition format_02x :: "int \<Rightarrow> string" where
  "format_02x n =
     (if n < 0 then CHR ''-'' # hex_digits (nat (- n))
      else (let d = hex_digits (nat n) in replicate (2 - length d) CHR ''0'' @ d))"

subsection \<open>The function\<close>

definition adjust_color :: "string \<Rightarrow> real \<Rightarrow> exn + string" where
  "adjust_color hex_color brightness_factor =
     (case hex_to_rgb hex_color of
        Inl e \<Rightarrow> Inl e
      | Inr (r, g, b) \<Rightarrow>
          (let (r', g', b') =
                 (if brightness_factor < 1
                  then (darken r brightness_factor,
                        darken g brightness_factor,
                        darken b brightness_factor)
                  else if 1 < brightness_factor
                  then (lighten r brightness_factor,
                        lighten g brightness_factor,
                        lighten b brightness_factor)
                  else (r, g, b))
           in Inr (CHR ''#'' # format_02x r' @ format_02x g' @ format_02x b')))"

text \<open>A colour as the claims take it: \<open>#\<close> and six hexadecimal digits.\<close>

definition is_hex_color :: "string \<Rightarrow> bool" where
  "is_hex_color s =
     (case s of
        [] \<Rightarrow> False
      | c # ds \<Rightarrow> c = CHR ''#'' \<and> length ds = 6 \<and> list_all (\<lambda>d. hex_digit d \<noteq> None) ds)"

text \<open>The shape of a result: \<open>#\<close> and six lowercase hexadecimal digits.\<close>

definition is_lower_hex :: "char \<Rightarrow> bool" where
  "is_lower_hex c =
     (let n = (of_char c :: nat) in (48 \<le> n \<and> n \<le> 57) \<or> (97 \<le> n \<and> n \<le> 102))"

definition well_formed_color :: "string \<Rightarrow> bool" where
  "well_formed_color s =
     (case s of
        [] \<Rightarrow> False
      | c # ds \<Rightarrow> c = CHR ''#'' \<and> length ds = 6 \<and> list_all is_lower_hex ds)"

text \<open>
  The channels of the colour that \<open>_adjust_color\<close> returns, read back the way the
  function reads its own argument.
\<close>

definition out_channels :: "string \<Rightarrow> real \<Rightarrow> exn + int \<times> int \<times> int" where
  "out_channels hex_color brightness_factor =
     (case adjust_color hex_color brightness_factor of
        Inl e \<Rightarrow> Inl e
      | Inr out \<Rightarrow> hex_to_rgb out)"

text \<open>Comparing two colours channel by channel.\<close>

fun channels_le :: "int \<times> int \<times> int \<Rightarrow> int \<times> int \<times> int \<Rightarrow> bool" where
  "channels_le (r, g, b) (r', g', b') = (r \<le> r' \<and> g \<le> g' \<and> b \<le> b')"

section \<open>Classifying one image (\<open>ClassificationThread.process_image\<close>)\<close>

subsection \<open>Paths\<close>

text \<open>
  \<open>os.path.join(a, b)\<close> and \<open>os.path.basename(p)\<close>, for POSIX paths: an absolute
  second component replaces the first, otherwise one \<open>/\<close> separates the two; the
  base name is what follows the last \<open>/\<close>.
\<close>

definition path_join :: "string \<Rightarrow> string \<Rightarrow> string" where
  "path_join a b =
     (if b \<noteq> [] \<and> hd b = CHR ''/'' then b
      else if a = [] \<or> last a = CHR ''/'' then a @ b
      else a @ ''/'' @ b)"

definition basename :: "string \<Rightarrow> string" where
  "basename p = rev (takeWhile (\<lambda>c. c \<noteq> CHR ''/'') (rev p))"

subsection \<open>Images, prediction and the files written\<close>

text \<open>A decoded RGB image: its size and its bytes, three for each pixel.\<close>

record image =
  img_width :: nat
  img_height :: nat
  img_pixels :: "nat list"

text \<open>
  \<open>np.argmax\<close> of a vector: the position of the first largest entry; an empty vector
  raises \<open>ValueError\<close>.
\<close>

fun argmax_from :: "nat \<Rightarrow> real \<Rightarrow> nat \<Rightarrow> real list \<Rightarrow> nat" where
  "argmax_from best v i [] = best"
| "argmax_from best v i (x # xs) =
     (if v < x then argmax_from i x (Suc i) xs else argmax_from best v (Suc i) xs)"

definition np_argmax :: "real list \<Rightarrow> exn + nat" where
  "np_argmax xs =
     (case xs of
        [] \<Rightarrow> Inl (Exception ''attempt to get argmax of an empty sequence'')
      | x # rest \<Rightarrow> Inr (argmax_from 0 x 1 rest))"

text \<open>
  The signals of \<open>ClassificationThread\<close>: \<open>progress_update(int, int)\<close>,
  \<open>result_update(str, str, str)\<close>, \<open>finished()\<close> and \<open>error(str)\<close>. An emission
  is an event; a run is observed as the list of its events.
\<close>

datatype event =
    ProgressUpdate nat nat
  | ResultUpdate string string string
  | Finished
  | Error string

text \<open>What \<open>process_image\<close> does to the file system: the images it saves, and where.\<close>

datatype file_effect = SaveImage string image

text \<open>The tuple \<open>(img_path, predicted_class, confidence, output_path)\<close>.\<close>

type_synonym result = "string \<times> string \<times> real \<times> string"

text \<open>
  The parts of the outside world that \<open>process_image\<close> calls:
  \<open>Image.open(path).convert('RGB')\<close>, the pixel data that \<open>img.resize((w, h))\<close>
  computes, \<open>model.predict(img_array, verbose=0)[0]\<close> and whether
  \<open>img.save(path)\<close> raises.
\<close>

record 'm imaging =
  image_open :: "string \<Rightarrow> exn + image"
  resample :: "image \<Rightarrow> nat \<Rightarrow> nat \<Rightarrow> nat list"
  predict :: "'m \<Rightarrow> real list \<Rightarrow> exn + real list"
  save_error :: "string \<Rightarrow> image \<Rightarrow> exn option"

definition resize :: "'m imaging \<Rightarrow> image \<Rightarrow> nat \<times> nat \<Rightarrow> image" where
  "resize w img dims =
     \<lparr>img_width = fst dims, img_height = snd dims,
      img_pixels = resample w img (fst dims) (snd dims)\<rparr>"

text \<open>
  \<open>process_image\<close> of \<open>classification.py\<close>. The image that is saved is \<open>img\<close>, the
  decoded original; the resized copy \<open>img_resized\<close> only feeds the model. Every
  exception is raised again to the caller, so it is the function's outcome.
\<close>

definition process_image ::
  "'m imaging \<Rightarrow> string \<Rightarrow> string \<Rightarrow> 'm \<Rightarrow> string list \<Rightarrow> (exn + result) \<times> file_effect list" where
  "process_image w output_folder img_path model labels =
     (case image_open w img_path of
        Inl e \<Rightarrow> (Inl e, [])
      | Inr img \<Rightarrow>
          (let img_resized = resize w img (224, 224);
               img_array = map (\<lambda>v. fl53 (real v / 255)) (img_pixels img_resized)
           in case predict w model img_array of
                Inl e \<Rightarrow> (Inl e, [])
              | Inr predictions \<Rightarrow>
                  (case np_argmax predictions of
                     Inl e \<Rightarrow> (Inl e, [])
                   | Inr predicted_class_idx \<Rightarrow>
                       if length labels \<le> predicted_class_idx
                       then (Inl (Exception ''list index out of range''), [])
                       else
                         (let predicted_class = labels ! predicted_class_idx;
                              confidence = predictions ! predicted_class_idx;
                              class_folder = path_join output_folder predicted_class;
                              filename = basename img_path;
                              output_path = path_join class_folder filename
                          in case save_error w output_path img of
                               Some e \<Rightarrow> (Inl e, [])
                             | None \<Rightarrow>
                                 (Inr (img_path, predicted_class, confidence, output_path),
                                  [SaveImage output_path img])))))"

text \<open>
  \<open>process_image\<close> of \<open>ml.py\<close>. Here \<open>img\<close> is assigned the resized image before
  the prediction, so the image saved is the resized one. An exception is not raised
  again: the function reports it itself (the message names the whole path) and returns
  \<open>None\<close>. The outcome is the value returned, the signals emitted and the files
  written.
\<close>

definition process_image_ml ::
  "'m imaging \<Rightarrow> string \<Rightarrow> string \<Rightarrow> 'm \<Rightarrow> string list
     \<Rightarrow> result option \<times> event list \<times> file_effect list" where
  "process_image_ml w output_folder img_path model labels =
     (let failed = (\<lambda>e. (None, [Error (''Error processing '' @ img_path @ '': '' @ str e)], []))
      in case image_open w img_path of
        Inl e \<Rightarrow> failed e
      | Inr img0 \<Rightarrow>
          (let img = resize w img0 (224, 224);
               img_array = map (\<lambda>v. fl53 (real v / 255)) (img_pixels img)
           in case predict w model img_array of
                Inl e \<Rightarrow> failed e
              | Inr predictions \<Rightarrow>
                  (case np_argmax predictions of
                     Inl e \<Rightarrow> failed e
                   | Inr predicted_class_idx \<Rightarrow>
                       if length labels \<le> predicted_class_idx
                       then failed (Exception ''list index out of range'')
                       else
                         (let predicted_class = labels ! predicted_class_idx;
                              confidence = predictions ! predicted_class_idx;
                              class_folder = path_join output_folder predicted_class;
                              filename = basename img_path;
                              output_path = path_join class_folder filename
                          in case save_error w output_path img of
                               Some e \<Rightarrow> failed e
                             | None \<Rightarrow>
                                 (Some (img_path, predicted_class, confidence, output_path), [],
                                  [SaveImage output_path img])))))"

section \<open>The classification run (\<open>ClassificationThread.run\<close>)\<close>

subsection \<open>The job and the outside world\<close>

text \<open>The fields \<open>__init__\<close> stores. (The pool size only bounds how many workers run
  at once; the order in which they finish is part of the outside world below.)\<close>

record job =
  model_path :: string
  label_path :: string
  input_folders :: "string list"
  output_folder :: string
  batch_size :: int

text \<open>
  The places where \<open>run\<close> reads \<open>self.is_running\<close>: at the top of the loop for
  batch \<open>b\<close>, before taking the \<open>j\<close>-th completed future of batch \<open>b\<close>, and before
  reporting the \<open>j\<close>-th result of batch \<open>b\<close>. The flag is written by \<open>stop()\<close> from
  another thread, so what each read returns belongs to the outside world.
\<close>

datatype poll = BatchTop nat | Draining nat nat | Reporting nat nat

text \<open>
  The rest of the outside world: the model loader, \<open>f.readlines()\<close> of the label file,
  \<open>glob.glob(pattern, recursive=...)\<close>, the order in which \<open>list(set(...))\<close> lists
  the paths, \<open>os.makedirs(path, exist_ok=True)\<close>, the order in which the futures of a
  batch complete, and the flag. An order is given by choices: the \<open>k\<close>-th choice picks
  the next element among those left.
\<close>

record 'm world = "'m imaging" +
  tf_load_model :: "'m keras"
  readlines :: "string \<Rightarrow> exn + string list"
  glob_glob :: "string \<Rightarrow> bool \<Rightarrow> string list"
  set_order :: "nat \<Rightarrow> nat"
  makedirs :: "string \<Rightarrow> exn option"
  completion_order :: "nat \<Rightarrow> nat \<Rightarrow> nat"
  is_running :: "poll \<Rightarrow> bool"

function arrange :: "(nat \<Rightarrow> nat) \<Rightarrow> nat \<Rightarrow> 'a list \<Rightarrow> 'a list" where
  "arrange choice k xs =
     (if xs = [] then []
      else (let i = choice k mod length xs
            in xs ! i # arrange choice (Suc k) (take i xs @ drop (Suc i) xs)))"
  by pat_completeness auto
termination
proof (relation "measure (\<lambda>(choice, k, xs). length xs)")
  show "wf (measure (\<lambda>(choice :: nat \<Rightarrow> nat, k :: nat, xs :: 'a list). length xs))" by simp
next
  fix choice :: "nat \<Rightarrow> nat" and k :: nat and xs :: "'a list" and i
  assume "xs \<noteq> []" and i: "i = choice k mod length xs"
  then have "i < length xs" by simp
  then show "((choice, Suc k, take i xs @ drop (Suc i) xs), (choice, k, xs))
      \<in> measure (\<lambda>(choice, k, xs). length xs)" by simp
qed

declare arrange.simps [simp del]

subsection \<open>Setting up\<close>

text \<open>The image files: every pattern in every folder, directly and in subfolders, then
  \<open>list(set(image_files))\<close>.\<close>

definition discover :: "'m world \<Rightarrow> string list \<Rightarrow> string list" where
  "discover w folders =
     (let image_files =
            concat (map (\<lambda>folder.
              concat (map (\<lambda>ext.
                  glob_glob w (path_join folder ext) False
                  @ glob_glob w (path_join (path_join folder ''**'') ext) True)
                [''*.jpg'', ''*.jpeg'', ''*.png'', ''*.bmp'']))
              folders)
      in arrange (set_order w) 0 (remdups image_files))"

text \<open>The class folders, made one after the other; the first failure ends the loop.\<close>

fun make_class_folders :: "'m world \<Rightarrow> string \<Rightarrow> string list \<Rightarrow> exn option" where
  "make_class_folders w out_folder [] = None"
| "make_class_folders w out_folder (class_name # rest) =
     (case makedirs w (path_join out_folder class_name) of
        Some e \<Rightarrow> Some e
      | None \<Rightarrow> make_class_folders w out_folder rest)"

text \<open>
  Everything \<open>run\<close> does before the first batch: the model, the labels, the image
  files, the class folders and the range of the loop. Any exception here is caught by
  the \<open>except\<close> clause of \<open>run\<close>.
\<close>

definition run_setup ::
  "'m world \<Rightarrow> job \<Rightarrow> exn + 'm \<times> string list \<times> string list \<times> string list list" where
  "run_setup w job =
     (case fst (load_model_safely (tf_load_model w) (model_path job)) of
        Inl e \<Rightarrow> Inl e
      | Inr model \<Rightarrow>
          (case readlines w (label_path job) of
             Inl e \<Rightarrow> Inl e
           | Inr lines \<Rightarrow>
               (let labels = map py_strip lines;
                    image_files = discover w (input_folders job)
                in case make_class_folders w (output_folder job) labels of
                     Some e \<Rightarrow> Inl e
                   | None \<Rightarrow>
                       (case batches image_files (batch_size job) of
                          Inl e \<Rightarrow> Inl e
                        | Inr bs \<Rightarrow> Inr (model, labels, image_files, bs)))))"

subsection \<open>Formatting the confidence\<close>

text \<open>
  \<open>f"{confidence:.2f}"\<close>: the value rounded to two decimals (a tie to the even
  neighbour), written with at least one digit before the point.
\<close>

function dec_digits :: "nat \<Rightarrow> string" where
  "dec_digits n =
     (if n < 10 then [char_of (48 + n)] else dec_digits (n div 10) @ [char_of (48 + n mod 10)])"
  by pat_completeness auto
termination
  by (relation "measure (\<lambda>n. n)") auto

declare dec_digits.simps [simp del]

definition format_2f :: "real \<Rightarrow> string" where
  "format_2f x =
     (let n = nat (rne (\<bar>x\<bar> * 100))
      in (if x < 0 then ''-'' else '''')
         @ dec_digits (n div 100) @ ''.''
         @ [char_of (48 + n mod 100 div 10), char_of (48 + n mod 10)])"

subsection \<open>The loop of \<open>classification.py\<close>\<close>

text \<open>
  Taking the futures of batch \<open>b\<close> as they complete. A stop ends the loop (the futures
  not yet started are cancelled). A result is kept; a tuple is never empty, so
  \<open>if result\<close> holds for every result. An exception of the worker is reported with the
  base name of the image, and the loop goes on.
\<close>

fun drain ::
  "(poll \<Rightarrow> bool) \<Rightarrow> (string \<Rightarrow> exn + result) \<Rightarrow> nat \<Rightarrow> nat \<Rightarrow> string list
     \<Rightarrow> result list \<times> event list" where
  "drain running work b j [] = ([], [])"
| "drain running work b j (img_path # rest) =
     (if \<not> running (Draining b j) then ([], [])
      else (case work img_path of
              Inr result \<Rightarrow>
                (let (batch_results, evs) = drain running work b (Suc j) rest
                 in (result # batch_results, evs))
            | Inl exc \<Rightarrow>
                (let (batch_results, evs) = drain running work b (Suc j) rest
                 in (batch_results,
                     Error (''Error processing '' @ basename img_path @ '': '' @ str exc)
                       # evs))))"

text \<open>Reporting the results of batch \<open>b\<close>: each result, then the count.\<close>

fun report ::
  "(poll \<Rightarrow> bool) \<Rightarrow> nat \<Rightarrow> nat \<Rightarrow> nat \<Rightarrow> result list \<Rightarrow> nat \<Rightarrow> event list \<times> nat" where
  "report running total_files b j [] processed_count = ([], processed_count)"
| "report running total_files b j ((img_path, predicted_class, confidence, _) # rest)
       processed_count =
     (if \<not> running (Reporting b j) then ([], processed_count)
      else (let (evs, n) = report running total_files b (Suc j) rest (processed_count + 1)
            in (ResultUpdate img_path predicted_class (format_2f confidence)
                  # ProgressUpdate (processed_count + 1) total_files # evs, n)))"

fun batch_loop ::
  "(poll \<Rightarrow> bool) \<Rightarrow> (nat \<Rightarrow> nat \<Rightarrow> nat) \<Rightarrow> (string \<Rightarrow> exn + result) \<Rightarrow> nat \<Rightarrow> nat
     \<Rightarrow> string list list \<Rightarrow> nat \<Rightarrow> event list" where
  "batch_loop running completion work total_files b [] processed_count = []"
| "batch_loop running completion work total_files b (batch_files # rest) processed_count =
     (if \<not> running (BatchTop b) then []
      else (let (batch_results, evs1) =
                  drain running work b 0 (arrange (completion b) 0 batch_files);
                (evs2, n) = report running total_files b 0 batch_results processed_count
            in evs1 @ evs2 @ batch_loop running completion work total_files (Suc b) rest n))"

definition run :: "'m world \<Rightarrow> job \<Rightarrow> event list" where
  "run w job =
     (case run_setup w job of
        Inl e \<Rightarrow> [Error (''Error in classification setup: '' @ str e), Finished]
      | Inr (model, labels, image_files, bs) \<Rightarrow>
          batch_loop (is_running w) (completion_order w)
            (\<lambda>img_path. fst (process_image (imaging.truncate w) (output_folder job) img_path model labels))
            (length image_files) 0 bs 0
          @ [Finished])"

subsection \<open>The loop of \<open>ml.py\<close>\<close>

text \<open>
  Here the worker reports its own failure, whether or not its future is ever taken, and
  the count is emitted while the futures are taken. The events are listed in the order
  of completion: what a worker emits, then what the loop does with its future. After a
  stop the pool still finishes the futures that are left.
\<close>

fun drain_ml ::
  "(poll \<Rightarrow> bool) \<Rightarrow> (string \<Rightarrow> result option \<times> event list) \<Rightarrow> nat \<Rightarrow> nat \<Rightarrow> nat
     \<Rightarrow> string list \<Rightarrow> nat \<Rightarrow> result list \<times> event list \<times> nat" where
  "drain_ml running work total_files b j [] processed = ([], [], processed)"
| "drain_ml running work total_files b j (img_path # rest) processed =
     (if \<not> running (Draining b j)
      then ([], concat (map (\<lambda>p. snd (work p)) (img_path # rest)), processed)
      else (case fst (work img_path) of
              Some result \<Rightarrow>
                (let (batch_results, evs, n) =
                       drain_ml running work total_files b (Suc j) rest (processed + 1)
                 in (result # batch_results,
                     snd (work img_path) @ ProgressUpdate (processed + 1) total_files # evs, n))
            | None \<Rightarrow>
                (let (batch_results, evs, n) =
                       drain_ml running work total_files b (Suc j) rest processed
                 in (batch_results, snd (work img_path) @ evs, n))))"

fun report_ml :: "(poll \<Rightarrow> bool) \<Rightarrow> nat \<Rightarrow> nat \<Rightarrow> result list \<Rightarrow> event list" where
  "report_ml running b j [] = []"
| "report_ml running b j ((img_path, predicted_class, confidence, output_path) # rest) =
     (if \<not> running (Reporting b j) then []
      else ResultUpdate img_path predicted_class (format_2f confidence)
             # report_ml running b (Suc j) rest)"

fun batch_loop_ml ::
  "(poll \<Rightarrow> bool) \<Rightarrow> (nat \<Rightarrow> nat \<Rightarrow> nat) \<Rightarrow> (string \<Rightarrow> result option \<times> event list) \<Rightarrow> nat
     \<Rightarrow> nat \<Rightarrow> string list list \<Rightarrow> nat \<Rightarrow> event list" where
  "batch_loop_ml running completion work total_files b [] processed = []"
| "batch_loop_ml running completion work total_files b (batch_files # rest) processed =
     (if \<not> running (BatchTop b) then []
      else (let (batch_results, evs1, n) =
                  drain_ml running work total_files b 0
                    (arrange (completion b) 0 batch_files) processed
            in evs1 @ report_ml running b 0 batch_results
               @ batch_loop_ml running completion work total_files (Suc b) rest n))"

definition run_ml :: "'m world \<Rightarrow> job \<Rightarrow> event list" where
  "run_ml w job =
     (case run_setup w job of
        Inl e \<Rightarrow> [Error (''Error in classification process: '' @ str e), Finished]
      | Inr (model, labels, image_files, bs) \<Rightarrow>
          batch_loop_ml (is_running w) (completion_order w)
            (\<lambda>img_path.
               (let (r, evs, files) =
                      process_image_ml (imaging.truncate w) (output_folder job) img_path model labels
                in (r, evs)))
            (length image_files) 0 bs 0
          @ [Finished])"

subsection \<open>Reading a list of events\<close>

text \<open>The emissions of one signal among the events of a run.\<close>

fun is_progress :: "event \<Rightarrow> bool" where
  "is_progress (ProgressUpdate _ _) = True"
| "is_progress _ = False"

fun is_result_for :: "string \<Rightarrow> event \<Rightarrow> bool" where
  "is_result_for p (ResultUpdate img_path _ _) = (img_path = p)"
| "is_result_for p _ = False"

definition finished_count :: "event list \<Rightarrow> nat" where
  "finished_count evs = length (filter (\<lambda>ev. ev = Finished) evs)"

section \<open>An example job\<close>

text \<open>
  A folder \<open>in\<close> with three images, of which \<open>b.jpg\<close> cannot be decoded; two
  labels; batches of two. The recursive pattern finds the same three files again, so
  the list has duplicates before \<open>set\<close> removes them.
\<close>

definition example_world :: "unit world" where
  "example_world =
     \<lparr>image_open = (\<lambda>p. if p = ''in/b.jpg''
                          then Inl (Exception ''cannot identify image file'')
                          else Inr \<lparr>img_width = 2, img_height = 1,
                                    img_pixels = [255, 0, 0, 0, 0, 255]\<rparr>),
      resample = (\<lambda>img w h. replicate (3 * w * h) 128),
      predict = (\<lambda>m a. Inr [1 / 8, 7 / 8]),
      save_error = (\<lambda>p img. None),
      tf_load_model = (\<lambda>p objs. Inr ()),
      readlines = (\<lambda>p. Inr [''dog'' @ [CHR 0x0A], ''cat'' @ [CHR 0x0A]]),
      glob_glob = (\<lambda>pattern recursive.
                     if pattern = ''in/*.jpg'' \<or> pattern = ''in/**/*.jpg''
                     then [''in/a.jpg'', ''in/b.jpg'', ''in/c.jpg''] else []),
      set_order = (\<lambda>k. 0),
      makedirs = (\<lambda>p. None),
      completion_order = (\<lambda>b k. 0),
      is_running = (\<lambda>q. True)\<rparr>"

definition example_job :: job where
  "example_job =
     \<lparr>model_path = ''model.h5'', label_path = ''labels.txt'', input_folders = [''in''],
      output_folder = ''out'', batch_size = 2\<rparr>"

section \<open>Properties of the loader\<close>

lemma py_in_iff_sublist: "py_in sub s \<longleftrightarrow> (\<exists>ps ss. s = ps @ sub @ ss)"
proof (induction s)
  case Nil
  then show ?case by auto
next
  case (Cons c cs)
  show ?case
  proof
    assume "py_in sub (c # cs)"
    then consider "prefix sub (c # cs)" | "py_in sub cs" by auto
    then show "\<exists>ps ss. c # cs = ps @ sub @ ss"
    proof cases
      case 1
      then obtain ss where "c # cs = sub @ ss" by (auto simp: prefix_def)
      then have "c # cs = [] @ sub @ ss" by simp
      then show ?thesis by blast
    next
      case 2
      with Cons obtain ps ss where "cs = ps @ sub @ ss" by blast
      then have "c # cs = (c # ps) @ sub @ ss" by simp
      then show ?thesis by blast
    qed
  next
    assume "\<exists>ps ss. c # cs = ps @ sub @ ss"
    then obtain ps ss where eq: "c # cs = ps @ sub @ ss" by blast
    show "py_in sub (c # cs)"
    proof (cases ps)
      case Nil
      with eq have "prefix sub (c # cs)" by (simp add: prefix_def)
      then show ?thesis by simp
    next
      case (Cons p ps')
      with eq have "cs = ps' @ sub @ ss" by simp
      with Cons.IH show ?thesis by auto
    qed
  qed
qed

text \<open>
  Claim C1. \<open>load_model_safely\<close> makes the second load, the one with the substitute
  \<open>DepthwiseConv2D\<close> factory, exactly when the first load raised an exception whose
  message contains both \<open>DepthwiseConv2D\<close> and \<open>groups\<close>; its answer is then
  whatever the second load gives. When the first load raised a message that lacks
  either substring, that same exception is the outcome and the first load is the only
  one made.
\<close>

theorem load_model_safely_retry_iff:
  fixes load_model :: "'m keras"
  shows "(retried (load_model_safely load_model p) \<longleftrightarrow>
            (\<exists>e. load_model p [] = Inl e \<and>
                 py_in ''DepthwiseConv2D'' (str e) \<and> py_in ''groups'' (str e)))
       \<and> (retried (load_model_safely load_model p) \<longrightarrow>
            fst (load_model_safely load_model p) =
              load_model p [(''DepthwiseConv2D'', CustomDepthwiseConv2D)] \<and>
            length (load_attempts (load_model_safely load_model p)) = 2)
       \<and> (\<forall>e. load_model p [] = Inl e \<and>
                \<not> (py_in ''DepthwiseConv2D'' (str e) \<and> py_in ''groups'' (str e)) \<longrightarrow>
            load_model_safely load_model p = (Inl e, [LoadModel p []]))"
  by (cases "load_model p []")
     (auto simp: load_model_safely_def retried_def load_attempts_def Let_def)

theorem load_model_safely_retry_iff_witness:
  "retried (load_model_safely
      (\<lambda>p objs. if objs = []
         then Inl (Exception ''Unrecognized keyword arguments passed to DepthwiseConv2D: groups'')
         else Inr (7 :: nat)) ''model.h5'')
   \<and> fst (load_model_safely
      (\<lambda>p objs. if objs = []
         then Inl (Exception ''Unrecognized keyword arguments passed to DepthwiseConv2D: groups'')
         else Inr (7 :: nat)) ''model.h5'') = Inr 7
   \<and> \<not> (py_in ''DepthwiseConv2D'' ''No file or directory found at model.h5''
        \<and> py_in ''groups'' ''No file or directory found at model.h5'')
   \<and> load_model_safely
        (\<lambda>p objs. (Inl (Exception ''No file or directory found at model.h5'') :: exn + nat))
        ''model.h5''
      = (Inl (Exception ''No file or directory found at model.h5''), [LoadModel ''model.h5'' []])"
proof -
  let ?K1 = "\<lambda>(p::string) (objs::custom_objects). if objs = []
         then Inl (Exception ''Unrecognized keyword arguments passed to DepthwiseConv2D: groups'')
         else Inr (7 :: nat)"
  let ?K2 = "\<lambda>(p::string) (objs::custom_objects).
         (Inl (Exception ''No file or directory found at model.h5'') :: exn + nat)"
  have sig: "py_in ''DepthwiseConv2D''
               ''Unrecognized keyword arguments passed to DepthwiseConv2D: groups''
           \<and> py_in ''groups''
               ''Unrecognized keyword arguments passed to DepthwiseConv2D: groups''"
    by simp
  have nosig: "\<not> (py_in ''DepthwiseConv2D'' ''No file or directory found at model.h5''
        \<and> py_in ''groups'' ''No file or directory found at model.h5'')"
    by simp
  from sig load_model_safely_retry_iff [of ?K1 "''model.h5''"]
  have r1: "retried (load_model_safely ?K1 ''model.h5'')" by simp
  with load_model_safely_retry_iff [of ?K1 "''model.h5''"]
  have r2: "fst (load_model_safely ?K1 ''model.h5'') = Inr 7" by simp
  from nosig load_model_safely_retry_iff [of ?K2 "''model.h5''"]
  have r3: "load_model_safely ?K2 ''model.h5''
      = (Inl (Exception ''No file or directory found at model.h5''), [LoadModel ''model.h5'' []])"
    by simp
  from r1 r2 nosig r3 show ?thesis by blast
qed

section \<open>Properties of the batching\<close>

lemma range_up_closed_form:
  "0 < step \<Longrightarrow> range_up i stop step = map (\<lambda>k. i + int k * step) [0..<nat (- ((i - stop) div step))]"
proof (induction i stop step rule: range_up.induct)
  case (1 i stop step)
  show ?case
  proof (cases "i < stop")
    case False
    with 1(2) have "(i - stop) div step \<ge> 0" by (simp add: pos_imp_zdiv_nonneg_iff)
    with False 1(2) show ?thesis by (simp add: range_up.simps[of i])
  next
    case True
    let ?n = "nat (- ((i - stop) div step))"
    let ?m = "nat (- ((i + step - stop) div step))"
    have d: "(i + step - stop) div step = (i - stop) div step + 1"
      using 1(2) by (smt (verit) div_add_self2)
    have neg: "(i - stop) div step < 0" using True 1(2)
      by (simp add: div_neg_pos_less0)
    have nm: "?n = Suc ?m" using d neg by simp
    have "range_up i stop step = i # range_up (i + step) stop step"
      using True 1(2) by (simp add: range_up.simps[of i])
    also have "\<dots> = i # map (\<lambda>k. i + step + int k * step) [0..<?m]"
      using 1 True by simp
    also have "\<dots> = map (\<lambda>k. i + int k * step) [0..<Suc ?m]"
      by (simp only: map_upt_Suc) (simp add: algebra_simps)
    finally show ?thesis using nm by simp
  qed
qed

lemma ceil_div_int:
  fixes N B :: int
  assumes "0 < B"
  shows "\<lceil>real_of_int N / real_of_int B\<rceil> = - ((- N) div B)"
  by (metis ceiling_divide_eq_div)

lemma py_slice_nonneg:
  assumes "0 \<le> a" "0 \<le> b"
  shows "py_slice xs a (a + b) = take (nat b) (drop (nat a) xs)"
proof (cases "a < int (length xs)")
  case False
  with assms show ?thesis by (simp add: py_slice_def Let_def min_def)
next
  case True
  show ?thesis
  proof (cases "a + b \<le> int (length xs)")
    case True
    with assms \<open>a < int (length xs)\<close> show ?thesis
      by (simp add: py_slice_def Let_def min_def)
  next
    case False
    with assms \<open>a < int (length xs)\<close> show ?thesis
      by (simp add: py_slice_def Let_def min_def nat_diff_distrib)
  qed
qed

lemma batches_eq:
  assumes "0 < B"
  shows "batches xs B = Inr (map (\<lambda>k. take (nat B) (drop (k * nat B) xs))
            [0..<nat \<lceil>real (length xs) / real_of_int B\<rceil>])"
proof -
  let ?N = "int (length xs)"
  let ?n = "nat (- ((0 - ?N) div B))"
  have sl: "py_slice xs (int k * B) (int k * B + B) = take (nat B) (drop (k * nat B) xs)" for k
  proof -
    have kb: "nat (int k * B) = k * nat B" using assms by (simp add: nat_mult_distrib)
    have "0 \<le> int k * B" using assms by simp
    from py_slice_nonneg [OF this, of B xs] assms kb show ?thesis by simp
  qed
  have "batches xs B = Inr (map (\<lambda>i. py_slice xs i (i + B)) (map (\<lambda>k. 0 + int k * B) [0..<?n]))"
    using assms range_up_closed_form [of B 0 ?N] by (simp add: batches_def py_range_def)
  also have "map (\<lambda>i. py_slice xs i (i + B)) (map (\<lambda>k. 0 + int k * B) [0..<?n])
      = map (\<lambda>k. take (nat B) (drop (k * nat B) xs)) [0..<?n]"
    using sl by simp
  finally show ?thesis using assms ceil_div_int [of B ?N] by simp
qed

lemma concat_chunks:
  "0 < b \<Longrightarrow> length xs \<le> n * b \<Longrightarrow>
   concat (map (\<lambda>k. take b (drop (k * b) xs)) [0..<n]) = xs"
proof (induction n arbitrary: xs)
  case 0
  then show ?case by simp
next
  case (Suc n)
  have "concat (map (\<lambda>k. take b (drop (k * b) xs)) [0..<Suc n])
      = take b xs @ concat (map (\<lambda>k. take b (drop (k * b) (drop b xs))) [0..<n])"
    by (simp only: map_upt_Suc) (simp add: add.commute)
  also have "concat (map (\<lambda>k. take b (drop (k * b) (drop b xs))) [0..<n]) = drop b xs"
    using Suc.prems by (intro Suc.IH) auto
  finally show ?case by simp
qed

lemma chunk_index_unique:
  assumes "distinct xs" "0 < b"
    and "x \<in> set (take b (drop (k * b) xs))" "x \<in> set (take b (drop (j * b) xs))"
  shows "k = j"
proof -
  from assms(3) obtain i where i: "i < b" "k * b + i < length xs" "x = xs ! (k * b + i)"
    by (auto simp: in_set_conv_nth)
  from assms(4) obtain i' where i': "i' < b" "j * b + i' < length xs" "x = xs ! (j * b + i')"
    by (auto simp: in_set_conv_nth)
  from i i' assms(1) have "k * b + i = j * b + i'"
    by (simp add: nth_eq_iff_index_eq)
  then have "(k * b + i) div b = (j * b + i') div b" by simp
  with i(1) i'(1) assms(2) show ?thesis by simp
qed

lemma ceil_mult_bounds:
  fixes B :: int and N :: nat
  assumes "0 < B"
  defines "n \<equiv> nat \<lceil>real N / real_of_int B\<rceil>"
  shows "N \<le> n * nat B" and "k < n \<Longrightarrow> k * nat B < N"
proof -
  let ?q = "real N / real_of_int B"
  have q0: "0 \<le> ?q" using assms by simp
  then have c0: "0 \<le> \<lceil>?q\<rceil>" by (simp add: ceiling_le_iff [symmetric] le_of_int_ceiling order_trans)
  have "?q \<le> of_int \<lceil>?q\<rceil>" by (rule le_of_int_ceiling)
  then have "real N \<le> of_int \<lceil>?q\<rceil> * real_of_int B"
    using assms(1) by (metis pos_divide_le_eq of_int_0_less_iff)
  then have "int N \<le> \<lceil>?q\<rceil> * B"
    by (metis of_int_mult of_int_of_nat_eq of_int_le_iff)
  then have "int N \<le> int n * int (nat B)" using c0 assms by simp
  then show "N \<le> n * nat B" by (metis of_nat_mult of_nat_le_iff)
  assume "k < n"
  then have "int k < \<lceil>?q\<rceil>" using c0 by (simp add: n_def)
  then have "real_of_int (int k) < ?q" by (simp add: less_ceiling_iff)
  then have "real_of_int (int k) * real_of_int B < real N"
    using assms(1) by (metis pos_less_divide_eq of_int_0_less_iff)
  then have "int k * B < int N"
    by (metis of_int_mult of_int_of_nat_eq of_int_less_iff)
  then have "int k * int (nat B) < int N" using assms by simp
  then show "k * nat B < N" by (metis of_nat_mult of_nat_less_iff)
qed

text \<open>
  Claim C5. For a positive batch size \<open>B\<close> the loop's batches of a list of
  \<open>N\<close> image paths are \<open>ceil(N / B)\<close> in number; batch \<open>k\<close> is the run of
  \<open>B\<close> consecutive paths starting at position \<open>k * B\<close>, so every batch but the last
  has exactly \<open>B\<close> paths and the last has between 1 and \<open>B\<close>; joined in order the
  batches give the list back; and when the list has no duplicates every path lies in
  exactly one batch.
\<close>

theorem batches_partition:
  fixes B :: int
  assumes "0 < B"
  shows "\<exists>bs. batches xs B = Inr bs
     \<and> int (length bs) = \<lceil>real (length xs) / real_of_int B\<rceil>
     \<and> concat bs = xs
     \<and> (\<forall>k < length bs. bs ! k = take (nat B) (drop (k * nat B) xs))
     \<and> (\<forall>k. Suc k < length bs \<longrightarrow> length (bs ! k) = nat B)
     \<and> (\<forall>k < length bs. 0 < length (bs ! k) \<and> length (bs ! k) \<le> nat B)
     \<and> (distinct xs \<longrightarrow> (\<forall>x \<in> set xs. \<exists>!k. k < length bs \<and> x \<in> set (bs ! k)))"
proof -
  define n where "n = nat \<lceil>real (length xs) / real_of_int B\<rceil>"
  define bs where "bs = map (\<lambda>k. take (nat B) (drop (k * nat B) xs)) [0..<n]"
  have b0: "0 < nat B" using assms by simp
  have cover: "length xs \<le> n * nat B"
    and inside: "\<And>k. k < n \<Longrightarrow> k * nat B < length xs"
    using ceil_mult_bounds [OF assms, where N = "length xs"] by (simp_all add: n_def)
  have eq: "batches xs B = Inr bs" using batches_eq [OF assms, of xs] by (simp add: bs_def n_def)
  have len: "length bs = n" by (simp add: bs_def)
  have "0 \<le> real (length xs) / real_of_int B" using assms by simp
  then have "0 \<le> \<lceil>real (length xs) / real_of_int B\<rceil>"
    using ceiling_mono [of 0 "real (length xs) / real_of_int B"] by simp
  then have count: "int (length bs) = \<lceil>real (length xs) / real_of_int B\<rceil>"
    by (simp add: len n_def)
  have cat: "concat bs = xs" unfolding bs_def using b0 cover by (rule concat_chunks)
  have nth: "bs ! k = take (nat B) (drop (k * nat B) xs)" if "k < length bs" for k
    using that by (simp add: bs_def)
  have full: "length (bs ! k) = nat B" if "Suc k < length bs" for k
  proof -
    from that have "Suc k < n" by (simp add: len)
    then have "Suc k * nat B < length xs" by (rule inside)
    with that show ?thesis by (simp add: nth min_def)
  qed
  have nonempty: "0 < length (bs ! k) \<and> length (bs ! k) \<le> nat B" if "k < length bs" for k
    using that inside [of k] b0 by (simp add: nth len)
  have uniq: "\<exists>!k. k < length bs \<and> x \<in> set (bs ! k)" if d: "distinct xs" and x: "x \<in> set xs" for x
  proof -
    from x cat have "x \<in> set (concat bs)" by simp
    then obtain b where "b \<in> set bs" "x \<in> set b" by auto
    then obtain k where k: "k < length bs" "x \<in> set (bs ! k)"
      by (metis in_set_conv_nth)
    show ?thesis
    proof (rule ex1I [of _ k])
      show "k < length bs \<and> x \<in> set (bs ! k)" using k by simp
    next
      fix j assume j: "j < length bs \<and> x \<in> set (bs ! j)"
      then have xj: "x \<in> set (take (nat B) (drop (j * nat B) xs))" using nth [of j] by simp
      have xk: "x \<in> set (take (nat B) (drop (k * nat B) xs))" using k nth [of k] by simp
      from d b0 xj xk show "j = k" by (rule chunk_index_unique)
    qed
  qed
  from eq count cat nth full nonempty uniq show ?thesis by blast
qed

theorem batches_partition_witness:
  "(0::int) < 2 \<and> batches [''a.jpg'', ''b.jpg'', ''c.png'', ''d.bmp'', ''e.jpg''] 2
     = Inr [[''a.jpg'', ''b.jpg''], [''c.png'', ''d.bmp''], [''e.jpg'']]
   \<and> \<lceil>real (length [''a.jpg'', ''b.jpg'', ''c.png'', ''d.bmp'', ''e.jpg'']) / real_of_int 2\<rceil> = 3"
proof -
  have h: "(0::int) < 2" by simp
  from batches_partition [OF h, of "[''a.jpg'', ''b.jpg'', ''c.png'', ''d.bmp'', ''e.jpg'']"]
  obtain bs where bs: "batches [''a.jpg'', ''b.jpg'', ''c.png'', ''d.bmp'', ''e.jpg''] 2 = Inr bs"
    "int (length bs) = \<lceil>real (length [''a.jpg'', ''b.jpg'', ''c.png'', ''d.bmp'', ''e.jpg'']) / real_of_int 2\<rceil>"
    "\<forall>k < length bs. bs ! k = take (nat 2) (drop (k * nat 2) [''a.jpg'', ''b.jpg'', ''c.png'', ''d.bmp'', ''e.jpg''])"
    by blast
  have c: "\<lceil>real (length [''a.jpg'', ''b.jpg'', ''c.png'', ''d.bmp'', ''e.jpg'']) / real_of_int 2\<rceil> = 3"
    by simp
  with bs(2) have l: "length bs = 3" by simp
  then obtain b0 b1 b2 where shape: "bs = [b0, b1, b2]"
    by (metis (no_types, opaque_lifting) length_0_conv length_Suc_conv numeral_3_eq_3)
  from bs(3) l shape have "b0 = [''a.jpg'', ''b.jpg'']" "b1 = [''c.png'', ''d.bmp'']" "b2 = [''e.jpg'']"
    by (auto simp: nth_Cons' numeral_2_eq_2 numeral_3_eq_3 All_less_Suc)
  with bs(1) shape h c show ?thesis by simp
qed

section \<open>Properties of the rounding\<close>

lemma rne_of_int: "rne (of_int n) = n"
  by (simp add: rne_def)

lemma rne_bounds: "\<lfloor>x\<rfloor> \<le> rne x" "rne x \<le> \<lfloor>x\<rfloor> + 1"
  by (simp_all add: rne_def Let_def)

lemma rne_mono:
  assumes "x \<le> y"
  shows "rne x \<le> rne y"
proof (cases "\<lfloor>x\<rfloor> = \<lfloor>y\<rfloor>")
  case True
  with assms have "x - of_int \<lfloor>x\<rfloor> \<le> y - of_int \<lfloor>y\<rfloor>" by simp
  with True show ?thesis by (auto simp: rne_def Let_def)
next
  case False
  with assms have "\<lfloor>x\<rfloor> < \<lfloor>y\<rfloor>" using floor_mono [of x y] by simp
  then have "rne x \<le> \<lfloor>y\<rfloor>" using rne_bounds(2) [of x] by simp
  with rne_bounds(1) [of y] show ?thesis by simp
qed

lemma expo_up_bracket:
  "1 \<le> x \<Longrightarrow> 0 \<le> expo_up x \<and> 2 ^ nat (expo_up x) \<le> x \<and> x < 2 * 2 ^ nat (expo_up x)"
proof (induction x rule: expo_up.induct)
  case (1 x)
  show ?case
  proof (cases "2 \<le> x")
    case False
    with 1(2) show ?thesis by (simp add: expo_up.simps [of x])
  next
    case True
    then have h: "1 \<le> x / 2" by simp
    note ih = 1(1) [OF True h]
    have e: "expo_up x = expo_up (x / 2) + 1" using True by (simp add: expo_up.simps [of x])
    from ih have nn: "0 \<le> expo_up (x / 2)" by simp
    have n: "nat (expo_up x) = Suc (nat (expo_up (x / 2)))" using nn e by (simp add: nat_add_distrib)
    from ih show ?thesis unfolding n using e by simp
  qed
qed

lemma expo_down_bracket:
  "0 < x \<Longrightarrow> x < 1 \<Longrightarrow>
   expo_down x < 0 \<and> 1 \<le> x * 2 ^ nat (- expo_down x) \<and> x * 2 ^ nat (- expo_down x) < 2"
proof (induction x rule: expo_down.induct)
  case (1 x)
  have e: "expo_down x = expo_down (2 * x) - 1" using 1(2,3) by (simp add: expo_down.simps [of x])
  show ?case
  proof (cases "2 * x < 1")
    case True
    from 1(2,3) have c: "0 < x \<and> x < 1" by simp
    have p: "0 < 2 * x" using 1(2) by simp
    note ih = 1(1) [OF c p True]
    from ih have nn: "expo_down (2 * x) < 0" by simp
    have n: "nat (- expo_down x) = Suc (nat (- expo_down (2 * x)))" using nn e by (simp add: nat_diff_distrib)
    from ih show ?thesis unfolding n using e by (simp add: mult.assoc mult.left_commute)
  next
    case False
    then have "expo_down (2 * x) = 0" by (simp add: expo_down.simps [of "2 * x"])
    with e have "expo_down x = - 1" by simp
    with False 1(2,3) show ?thesis by simp
  qed
qed

lemma powi_neg_nat: "(2::real) powi (- int n) = 1 / 2 ^ n"
  by (simp add: power_int_minus inverse_eq_divide)

lemma exponent_bracket:
  assumes "0 < x"
  shows "2 powi exponent x \<le> x" and "x < 2 powi (exponent x + 1)"
proof -
  have "2 powi exponent x \<le> x \<and> x < 2 powi (exponent x + 1)"
  proof (cases "1 \<le> x")
    case True
    from expo_up_bracket [OF True] True show ?thesis
      by (simp add: exponent_def power_int_def nat_add_distrib)
  next
    case False
    then have lt: "x < 1" by simp
    note b = expo_down_bracket [OF assms lt]
    let ?n = "nat (- expo_down x)"
    have n0: "0 < ?n" using b by simp
    have e: "exponent x = - int ?n" using b False by (simp add: exponent_def)
    have p1: "(2::real) powi exponent x = 1 / 2 ^ ?n" by (subst e) (rule powi_neg_nat)
    have e1: "exponent x + 1 = - int (?n - 1)" using e n0 by simp
    have p2: "(2::real) powi (exponent x + 1) = 1 / 2 ^ (?n - 1)"
      by (subst e1) (rule powi_neg_nat)
    have "(2::real) ^ ?n = 2 * 2 ^ (?n - 1)" using n0 by (metis power_eq_if not_gr_zero)
    with b show ?thesis unfolding p1 p2 by (simp add: field_simps)
  qed
  then show "2 powi exponent x \<le> x" and "x < 2 powi (exponent x + 1)" by simp_all
qed

lemma exponent_mono:
  assumes "0 < x" "x \<le> y"
  shows "exponent x \<le> exponent y"
proof (rule ccontr)
  assume "\<not> exponent x \<le> exponent y"
  then have "exponent y + 1 \<le> exponent x" by simp
  then have "(2::real) powi (exponent y + 1) \<le> 2 powi exponent x"
    by (intro power_int_increasing) simp_all
  moreover have "y < 2 powi (exponent y + 1)" using assms by (intro exponent_bracket) simp
  moreover have "2 powi exponent x \<le> x" using assms by (intro exponent_bracket)
  ultimately show False using assms by simp
qed

lemma fl53_pos:
  "0 < x \<Longrightarrow> fl53 x = of_int (rne (x / 2 powi (exponent x - 52))) * 2 powi (exponent x - 52)"
  by (simp add: fl53_def Let_def)

lemma fl53_minus: "fl53 (- x) = - fl53 x"
  by (simp add: fl53_def Let_def sgn_minus)

lemma fl53_pos_bounds:
  assumes "0 < x"
  shows "2 powi exponent x \<le> fl53 x" and "fl53 x \<le> 2 powi (exponent x + 1)"
proof -
  let ?e = "exponent x"
  let ?q = "(2::real) powi (?e - 52)"
  have q: "0 < ?q" by simp
  have lo: "(2::real) powi ?e = of_int (2 ^ 52) * ?q"
    by (simp add: power_int_diff)
  have hi: "(2::real) powi (?e + 1) = of_int (2 ^ 53) * ?q"
    by (simp add: power_int_diff power_int_add)
  have "of_int (2 ^ 52) * ?q \<le> x" using exponent_bracket(1) [OF assms] lo by simp
  then have "of_int (2 ^ 52) \<le> x / ?q" using q by (simp add: pos_le_divide_eq)
  then have "rne (of_int (2 ^ 52)) \<le> rne (x / ?q)" by (rule rne_mono)
  then have "(2 ^ 52 :: int) \<le> rne (x / ?q)" by (simp only: rne_of_int)
  then have "real_of_int (2 ^ 52) \<le> of_int (rne (x / ?q))" by (simp only: of_int_le_iff)
  then have "of_int (2 ^ 52) * ?q \<le> of_int (rne (x / ?q)) * ?q"
    using q by (simp only: mult_le_cancel_right_pos)
  then show "2 powi ?e \<le> fl53 x" using lo fl53_pos [OF assms] by simp
  have "x \<le> of_int (2 ^ 53) * ?q" using exponent_bracket(2) [OF assms] hi by simp
  then have "x / ?q \<le> of_int (2 ^ 53)" using q by (simp add: pos_divide_le_eq)
  then have "rne (x / ?q) \<le> rne (of_int (2 ^ 53))" by (rule rne_mono)
  then have "rne (x / ?q) \<le> (2 ^ 53 :: int)" by (simp only: rne_of_int)
  then have "of_int (rne (x / ?q)) \<le> real_of_int (2 ^ 53)" by (simp only: of_int_le_iff)
  then have "of_int (rne (x / ?q)) * ?q \<le> of_int (2 ^ 53) * ?q"
    using q by (simp only: mult_le_cancel_right_pos)
  then show "fl53 x \<le> 2 powi (?e + 1)" using hi fl53_pos [OF assms] by simp
qed

lemma fl53_mono_pos:
  assumes "0 < x" "x \<le> y"
  shows "fl53 x \<le> fl53 y"
proof (cases "exponent x = exponent y")
  case True
  let ?q = "(2::real) powi (exponent x - 52)"
  have q: "0 < ?q" by simp
  have "x / ?q \<le> y / ?q" using assms q by (simp add: divide_right_mono)
  then have "rne (x / ?q) \<le> rne (y / ?q)" by (rule rne_mono)
  then have "real_of_int (rne (x / ?q)) * ?q \<le> of_int (rne (y / ?q)) * ?q"
    using q by simp
  moreover have "0 < y" using assms by simp
  ultimately show ?thesis using True assms(1) by (simp add: fl53_pos)
next
  case False
  with exponent_mono [OF assms] have "exponent x + 1 \<le> exponent y" by simp
  then have "(2::real) powi (exponent x + 1) \<le> 2 powi exponent y"
    by (intro power_int_increasing) simp_all
  moreover have "fl53 x \<le> 2 powi (exponent x + 1)" using assms by (intro fl53_pos_bounds)
  moreover have "2 powi exponent y \<le> fl53 y" using assms by (intro fl53_pos_bounds) simp
  ultimately show ?thesis by simp
qed

lemma fl53_zero: "fl53 0 = 0"
  by (simp add: fl53_def)

lemma fl53_pos_pos: "0 < x \<Longrightarrow> 0 < fl53 x"
proof -
  assume x: "0 < x"
  have "(0::real) < 2 powi exponent x" by simp
  also have "\<dots> \<le> fl53 x" using x by (rule fl53_pos_bounds)
  finally show ?thesis .
qed

lemma fl53_mono:
  assumes "x \<le> y"
  shows "fl53 x \<le> fl53 y"
proof -
  consider "0 < x" | "x = 0" | "x < 0" "y < 0" | "x < 0" "y = 0" | "x < 0" "0 < y"
    using assms by linarith
  then show ?thesis
  proof cases
    case 1
    then show ?thesis using assms by (rule fl53_mono_pos)
  next
    case 2
    show ?thesis
    proof (cases "y = 0")
      case True
      with 2 show ?thesis by simp
    next
      case False
      with 2 assms have "0 < y" by simp
      from fl53_pos_pos [OF this] 2 show ?thesis by (simp add: fl53_zero)
    qed
  next
    case 3
    then have "0 < - y" "- y \<le> - x" using assms by simp_all
    then have "fl53 (- y) \<le> fl53 (- x)" by (rule fl53_mono_pos)
    then show ?thesis by (simp add: fl53_minus)
  next
    case 4
    then have "0 < fl53 (- x)" by (intro fl53_pos_pos) simp
    with 4 show ?thesis by (simp add: fl53_minus fl53_zero)
  next
    case 5
    then have "0 < fl53 (- x)" "0 < fl53 y" by (simp_all add: fl53_pos_pos)
    then show ?thesis by (simp add: fl53_minus)
  qed
qed

lemma fl53_of_nat_pos:
  assumes "0 < n" "n < 2 ^ 53"
  shows "fl53 (of_int n) = of_int n"
proof -
  let ?x = "real_of_int n"
  let ?e = "exponent ?x"
  have x: "0 < ?x" "1 \<le> ?x" using assms by simp_all
  have e0: "0 \<le> ?e" using expo_up_bracket [OF x(2)] x(2) by (simp add: exponent_def)
  have e52: "?e \<le> 52"
  proof (rule ccontr)
    assume "\<not> ?e \<le> 52"
    then have "53 \<le> ?e" by simp
    then have "(2::real) powi 53 \<le> 2 powi ?e" by (intro power_int_increasing) simp_all
    also have "\<dots> \<le> ?x" using x(1) by (rule exponent_bracket)
    finally have "real_of_int (2 ^ 53) \<le> of_int n" by simp
    then have "2 ^ 53 \<le> n" by (simp only: of_int_le_iff)
    with assms show False by simp
  qed
  define k where "k = nat (52 - ?e)"
  have "?e - 52 = - int k" using e52 by (simp add: k_def)
  then have q: "(2::real) powi (?e - 52) = 1 / 2 ^ k" by (simp only: powi_neg_nat)
  have "?x / (1 / 2 ^ k) = of_int (n * 2 ^ k)" by simp
  then have "rne (?x / (1 / 2 ^ k)) = n * 2 ^ k" by (simp only: rne_of_int)
  then show ?thesis using x(1) q by (simp add: fl53_pos)
qed

lemma fl53_of_int:
  assumes "\<bar>n\<bar> < 2 ^ 53"
  shows "fl53 (of_int n) = of_int n"
proof -
  consider "0 < n" | "n = 0" | "n < 0" by linarith
  then show ?thesis
  proof cases
    case 1
    with assms show ?thesis by (intro fl53_of_nat_pos) simp_all
  next
    case 2
    then show ?thesis by (simp add: fl53_zero)
  next
    case 3
    with assms have "fl53 (of_int (- n)) = of_int (- n)" by (intro fl53_of_nat_pos) simp_all
    then show ?thesis by (simp add: fl53_minus)
  qed
qed

section \<open>Properties of the colour adjustment\<close>

lemma hex_digit_hex_char: "d < 16 \<Longrightarrow> hex_digit (hex_char d) = Some d"
  by (auto simp: hex_digit_def hex_char_def Let_def)

lemma is_lower_hex_hex_char: "d < 16 \<Longrightarrow> is_lower_hex (hex_char d)"
  by (auto simp: is_lower_hex_def hex_char_def Let_def)

lemma hex_digits_small: "n < 16 \<Longrightarrow> hex_digits n = [hex_char n]"
  by (simp add: hex_digits.simps)

lemma hex_digits_byte: "16 \<le> n \<Longrightarrow> n < 256 \<Longrightarrow> hex_digits n = [hex_char (n div 16), hex_char (n mod 16)]"
  by (simp add: hex_digits.simps [of n] hex_digits_small)

lemma format_02x_byte:
  assumes "0 \<le> n" "n \<le> 255"
  shows "format_02x n = [hex_char (nat n div 16), hex_char (nat n mod 16)]"
proof (cases "nat n < 16")
  case True
  with assms show ?thesis by (simp add: format_02x_def hex_digits_small hex_char_def char_of_def bit_0)
next
  case False
  with assms have "16 \<le> nat n" "nat n < 256" by simp_all
  from hex_digits_byte [OF this] assms show ?thesis by (simp add: format_02x_def)
qed

lemma hex_digit_facts:
  assumes "hex_digit c = Some d"
  shows "d < 16" "\<not> is_space c" "c \<noteq> CHR ''-''" "c \<noteq> CHR ''+''" "c \<noteq> CHR ''#''"
  using assms by (auto simp: hex_digit_def is_space_def Let_def split: if_splits)

lemma py_int16_pair:
  assumes "hex_digit a = Some x" "hex_digit b = Some y"
  shows "py_int16 [a, b] = Inr (int (16 * x + y))"
  using assms hex_digit_facts [OF assms(1)] hex_digit_facts [OF assms(2)]
  by (simp add: py_int16_def py_strip_def Let_def)

lemma hex_color_shape:
  assumes "is_hex_color s"
  obtains a b c d e f va vb vc vd ve vf where
    "s = [CHR ''#'', a, b, c, d, e, f]"
    "hex_digit a = Some va" "hex_digit b = Some vb" "hex_digit c = Some vc"
    "hex_digit d = Some vd" "hex_digit e = Some ve" "hex_digit f = Some vf"
proof -
  from assms obtain ds where s: "s = CHR ''#'' # ds" and len: "length ds = 6"
    and all: "list_all (\<lambda>d. hex_digit d \<noteq> None) ds"
    by (auto simp: is_hex_color_def split: list.splits)
  from len obtain a b c d e f where ds: "ds = [a, b, c, d, e, f]"
    by (auto simp: length_Suc_conv numeral_eq_Suc)
  with all obtain va vb vc vd ve vf where
    "hex_digit a = Some va" "hex_digit b = Some vb" "hex_digit c = Some vc"
    "hex_digit d = Some vd" "hex_digit e = Some ve" "hex_digit f = Some vf"
    by auto
  with s ds that show thesis by blast
qed

lemma hex_to_rgb_digits:
  assumes "hex_digit a = Some va" "hex_digit b = Some vb" "hex_digit c = Some vc"
    "hex_digit d = Some vd" "hex_digit e = Some ve" "hex_digit f = Some vf"
  shows "hex_to_rgb [CHR ''#'', a, b, c, d, e, f]
           = Inr (int (16 * va + vb), int (16 * vc + vd), int (16 * ve + vf))"
proof -
  have strip: "py_lstrip [CHR ''#'', a, b, c, d, e, f] ''#'' = [a, b, c, d, e, f]"
    using hex_digit_facts(5) [OF assms(1)] by (simp add: py_lstrip_def)
  have sl: "py_slice [a, b, c, d, e, f] 0 2 = [a, b]"
    "py_slice [a, b, c, d, e, f] 2 4 = [c, d]"
    "py_slice [a, b, c, d, e, f] 4 6 = [e, f]"
    by (simp_all add: py_slice_def Let_def)
  show ?thesis
    unfolding hex_to_rgb_def strip Let_def sl
    by (simp add: py_int16_pair [OF assms(1,2)] py_int16_pair [OF assms(3,4)]
          py_int16_pair [OF assms(5,6)])
qed

lemma hex_to_rgb_range:
  assumes "is_hex_color s"
  obtains r g b where "hex_to_rgb s = Inr (r, g, b)"
    "0 \<le> r" "r \<le> 255" "0 \<le> g" "g \<le> 255" "0 \<le> b" "b \<le> 255"
proof -
  from assms obtain a b c d e f va vb vc vd ve vf where s: "s = [CHR ''#'', a, b, c, d, e, f]"
    and h: "hex_digit a = Some va" "hex_digit b = Some vb" "hex_digit c = Some vc"
    "hex_digit d = Some vd" "hex_digit e = Some ve" "hex_digit f = Some vf"
    by (rule hex_color_shape)
  have "va < 16" "vb < 16" "vc < 16" "vd < 16" "ve < 16" "vf < 16"
    using h by (simp_all add: hex_digit_facts(1))
  then have "int (16 * va + vb) \<le> 255" "int (16 * vc + vd) \<le> 255" "int (16 * ve + vf) \<le> 255"
    by simp_all
  moreover have "0 \<le> int (16 * va + vb)" "0 \<le> int (16 * vc + vd)" "0 \<le> int (16 * ve + vf)"
    by simp_all
  ultimately show thesis using that hex_to_rgb_digits [OF h] s by blast
qed

lemma format_rgb_roundtrip:
  assumes "0 \<le> r" "r \<le> 255" "0 \<le> g" "g \<le> 255" "0 \<le> b" "b \<le> 255"
  shows "hex_to_rgb (CHR ''#'' # format_02x r @ format_02x g @ format_02x b) = Inr (r, g, b)"
    and "well_formed_color (CHR ''#'' # format_02x r @ format_02x g @ format_02x b)"
proof -
  have d: "nat n div 16 < 16" "nat n mod 16 < 16" if "0 \<le> n" "n \<le> 255" for n :: int
    using that by simp_all
  have recombine: "int (16 * (nat n div 16) + nat n mod 16) = n" if "0 \<le> n" for n :: int
    using that by simp
  have fmt: "CHR ''#'' # format_02x r @ format_02x g @ format_02x b
      = [CHR ''#'', hex_char (nat r div 16), hex_char (nat r mod 16),
         hex_char (nat g div 16), hex_char (nat g mod 16),
         hex_char (nat b div 16), hex_char (nat b mod 16)]"
    using assms by (simp add: format_02x_byte)
  have "hex_to_rgb [CHR ''#'', hex_char (nat r div 16), hex_char (nat r mod 16),
         hex_char (nat g div 16), hex_char (nat g mod 16),
         hex_char (nat b div 16), hex_char (nat b mod 16)]
      = Inr (int (16 * (nat r div 16) + nat r mod 16),
             int (16 * (nat g div 16) + nat g mod 16),
             int (16 * (nat b div 16) + nat b mod 16))"
    using assms by (intro hex_to_rgb_digits hex_digit_hex_char d)
  then show "hex_to_rgb (CHR ''#'' # format_02x r @ format_02x g @ format_02x b) = Inr (r, g, b)"
    unfolding fmt using assms by (simp only: recombine)
  show "well_formed_color (CHR ''#'' # format_02x r @ format_02x g @ format_02x b)"
    unfolding fmt using assms by (simp add: well_formed_color_def is_lower_hex_hex_char d)
qed

lemma py_int_mono: "x \<le> y \<Longrightarrow> py_int x \<le> py_int y"
  unfolding py_int_def
  by (smt (verit) ceiling_mono floor_mono floor_le_ceiling ceiling_le_zero zero_le_floor order_trans)

lemma py_int_of_int: "py_int (of_int n) = n"
  by (simp add: py_int_def)

lemma py_int_nonneg: "0 \<le> x \<Longrightarrow> py_int x = \<lfloor>x\<rfloor>"
  by (simp add: py_int_def)

lemma fl53_byte: "0 \<le> c \<Longrightarrow> c \<le> 255 \<Longrightarrow> fl53 (of_int c) = of_int c"
  by (rule fl53_of_int) simp

lemma fl53_nonneg: "0 \<le> x \<Longrightarrow> 0 \<le> fl53 x"
  using fl53_mono [of 0 x] by (simp add: fl53_zero)

lemma darken_mono:
  assumes "0 \<le> c" "f1 \<le> f2"
  shows "darken c f1 \<le> darken c f2"
proof -
  have "of_int c * f1 \<le> of_int c * f2" using assms by (simp add: mult_left_mono)
  then show ?thesis unfolding darken_def by (intro py_int_mono fl53_mono)
qed

lemma darken_le:
  assumes "0 \<le> c" "c \<le> 255" "f < 1"
  shows "darken c f \<le> c"
proof -
  have "darken c f \<le> darken c 1" using assms by (intro darken_mono) simp_all
  also have "darken c 1 = c" using assms by (simp add: darken_def fl53_byte py_int_of_int)
  finally show ?thesis .
qed

lemma darken_floor:
  assumes "0 \<le> c" "0 \<le> f"
  shows "darken c f = \<lfloor>fl53 (of_int c * f)\<rfloor>" and "0 \<le> darken c f"
proof -
  have "0 \<le> fl53 (of_int c * f)" using assms by (intro fl53_nonneg) simp
  then show "darken c f = \<lfloor>fl53 (of_int c * f)\<rfloor>" and "0 \<le> darken c f"
    by (simp_all add: darken_def py_int_nonneg)
qed

lemma py_min_mono: "x \<le> y \<Longrightarrow> py_min x b \<le> py_min y b"
  by (simp add: py_min_def)

lemma lighten_mono:
  assumes "c \<le> 255" "f1 \<le> f2"
  shows "lighten c f1 \<le> lighten c f2"
proof -
  have "fl53 (f1 - 1) \<le> fl53 (f2 - 1)" using assms by (intro fl53_mono) simp
  then have "of_int (255 - c) * fl53 (f1 - 1) \<le> of_int (255 - c) * fl53 (f2 - 1)"
    using assms by (intro mult_left_mono) simp_all
  then have "fl53 (of_int (255 - c) * fl53 (f1 - 1)) \<le> fl53 (of_int (255 - c) * fl53 (f2 - 1))"
    by (rule fl53_mono)
  then have "of_int c + fl53 (of_int (255 - c) * fl53 (f1 - 1))
      \<le> of_int c + fl53 (of_int (255 - c) * fl53 (f2 - 1))" by simp
  then show ?thesis unfolding lighten_def by (intro py_int_mono py_min_mono fl53_mono)
qed

lemma lighten_le_255: "lighten c f \<le> 255"
proof -
  have "py_min x 255 \<le> 255" for x by (simp add: py_min_def)
  then have "py_int (py_min x 255) \<le> py_int 255" for x by (intro py_int_mono)
  then show ?thesis by (simp add: lighten_def py_int_def)
qed

lemma lighten_one:
  assumes "0 \<le> c" "c \<le> 255"
  shows "lighten c 1 = c"
  using assms by (simp add: lighten_def fl53_zero fl53_byte py_min_def py_int_of_int)

lemma lighten_ge:
  assumes "0 \<le> c" "c \<le> 255" "1 \<le> f"
  shows "c \<le> lighten c f"
  using lighten_mono [OF assms(2,3)] lighten_one [OF assms(1,2)] by simp

lemma adjust_color_cases:
  assumes "hex_to_rgb s = Inr (r, g, b)"
  shows "f < 1 \<Longrightarrow> adjust_color s f =
           Inr (CHR ''#'' # format_02x (darken r f) @ format_02x (darken g f) @ format_02x (darken b f))"
    and "1 < f \<Longrightarrow> adjust_color s f =
           Inr (CHR ''#'' # format_02x (lighten r f) @ format_02x (lighten g f) @ format_02x (lighten b f))"
    and "f = 1 \<Longrightarrow> adjust_color s f =
           Inr (CHR ''#'' # format_02x r @ format_02x g @ format_02x b)"
  using assms by (simp_all add: adjust_color_def)

lemma out_channels_darken:
  assumes "hex_to_rgb s = Inr (r, g, b)"
    and "0 \<le> r" "r \<le> 255" "0 \<le> g" "g \<le> 255" "0 \<le> b" "b \<le> 255"
    and "0 \<le> f" "f < 1"
  shows "out_channels s f = Inr (darken r f, darken g f, darken b f)"
    and "\<exists>out. adjust_color s f = Inr out \<and> well_formed_color out"
proof -
  have rng: "0 \<le> darken r f" "darken r f \<le> 255" "0 \<le> darken g f" "darken g f \<le> 255"
    "0 \<le> darken b f" "darken b f \<le> 255"
    using assms darken_le [of r f] darken_le [of g f] darken_le [of b f]
    by (simp_all add: darken_floor(2))
  from format_rgb_roundtrip(1) [OF rng] adjust_color_cases(1) [OF assms(1) assms(9)]
  show "out_channels s f = Inr (darken r f, darken g f, darken b f)"
    by (simp add: out_channels_def)
  from format_rgb_roundtrip(2) [OF rng] adjust_color_cases(1) [OF assms(1) assms(9)]
  show "\<exists>out. adjust_color s f = Inr out \<and> well_formed_color out" by simp
qed

lemma out_channels_lighten:
  assumes "hex_to_rgb s = Inr (r, g, b)"
    and "0 \<le> r" "r \<le> 255" "0 \<le> g" "g \<le> 255" "0 \<le> b" "b \<le> 255"
    and "1 < f"
  shows "out_channels s f = Inr (lighten r f, lighten g f, lighten b f)"
    and "\<exists>out. adjust_color s f = Inr out \<and> well_formed_color out"
proof -
  have rng: "0 \<le> lighten r f" "lighten r f \<le> 255" "0 \<le> lighten g f" "lighten g f \<le> 255"
    "0 \<le> lighten b f" "lighten b f \<le> 255"
    using assms lighten_ge [of r f] lighten_ge [of g f] lighten_ge [of b f]
    by (simp_all add: lighten_le_255)
  from format_rgb_roundtrip(1) [OF rng] adjust_color_cases(2) [OF assms(1) assms(8)]
  show "out_channels s f = Inr (lighten r f, lighten g f, lighten b f)"
    by (simp add: out_channels_def)
  from format_rgb_roundtrip(2) [OF rng] adjust_color_cases(2) [OF assms(1) assms(8)]
  show "\<exists>out. adjust_color s f = Inr out \<and> well_formed_color out" by simp
qed

lemma out_channels_same:
  assumes "hex_to_rgb s = Inr (r, g, b)"
    and "0 \<le> r" "r \<le> 255" "0 \<le> g" "g \<le> 255" "0 \<le> b" "b \<le> 255"
  shows "out_channels s 1 = Inr (r, g, b)"
    and "\<exists>out. adjust_color s 1 = Inr out \<and> well_formed_color out"
proof -
  from format_rgb_roundtrip(1) [OF assms(2-7)] adjust_color_cases(3) [OF assms(1), of 1]
  show "out_channels s 1 = Inr (r, g, b)" by (simp add: out_channels_def)
  from format_rgb_roundtrip(2) [OF assms(2-7)] adjust_color_cases(3) [OF assms(1), of 1]
  show "\<exists>out. adjust_color s 1 = Inr out \<and> well_formed_color out" by simp
qed

lemmas eval_color =
  adjust_color_def out_channels_def hex_to_rgb_def py_lstrip_def py_slice_def py_int16_def
  py_strip_def is_space_def hex_digit_def darken_def lighten_def py_min_def fl53_def exponent_def
  expo_up.simps expo_down.simps rne_def py_int_def format_02x_def hex_digits.simps hex_char_def
  Let_def char_of_def bit_0 is_hex_color_def well_formed_color_def is_lower_hex_def

text \<open>
  Claim C7. With the brightness factor exactly 1.0, \<open>_adjust_color\<close> applied to
  \<open>#\<close> and six hexadecimal digits returns a colour whose three channels are the
  channels of the argument.
\<close>

theorem adjust_color_identity:
  assumes "is_hex_color s"
  shows "\<exists>r g b. hex_to_rgb s = Inr (r, g, b) \<and> out_channels s 1 = Inr (r, g, b)"
proof -
  from assms obtain r g b where c: "hex_to_rgb s = Inr (r, g, b)"
    "0 \<le> r" "r \<le> 255" "0 \<le> g" "g \<le> 255" "0 \<le> b" "b \<le> 255"
    by (rule hex_to_rgb_range)
  from out_channels_same(1) [OF c] c(1) show ?thesis by blast
qed

theorem adjust_color_identity_witness:
  "is_hex_color ''#0077ED'' \<and> hex_to_rgb ''#0077ED'' = Inr (0, 119, 237)
   \<and> out_channels ''#0077ED'' 1 = Inr (0, 119, 237)"
proof -
  have h: "is_hex_color ''#0077ED''" by (simp add: eval_color)
  have c: "hex_to_rgb ''#0077ED'' = Inr (0, 119, 237)" by (simp add: eval_color)
  from adjust_color_identity [OF h] c have "out_channels ''#0077ED'' 1 = Inr (0, 119, 237)"
    by auto
  with h c show ?thesis by simp
qed

text \<open>
  Claim C10. For \<open>#\<close> and six hexadecimal digits and a brightness factor from 0.5 to
  1.5, \<open>_adjust_color\<close> returns (it does not raise) \<open>#\<close> followed by exactly six
  lowercase hexadecimal digits, and the three channels they spell are integers from 0
  to 255.
\<close>

theorem adjust_color_well_formed:
  assumes "is_hex_color s" "1 / 2 \<le> f" "f \<le> 3 / 2"
  shows "\<exists>out r g b. adjust_color s f = Inr out \<and> well_formed_color out
           \<and> hex_to_rgb out = Inr (r, g, b)
           \<and> 0 \<le> r \<and> r \<le> 255 \<and> 0 \<le> g \<and> g \<le> 255 \<and> 0 \<le> b \<and> b \<le> 255"
proof -
  from assms(1) obtain r g b where c: "hex_to_rgb s = Inr (r, g, b)"
    "0 \<le> r" "r \<le> 255" "0 \<le> g" "g \<le> 255" "0 \<le> b" "b \<le> 255"
    by (rule hex_to_rgb_range)
  consider "f < 1" | "f = 1" | "1 < f" by linarith
  then show ?thesis
  proof cases
    case 1
    from assms(2) have f0: "0 \<le> f" by simp
    from out_channels_darken(2) [OF c f0 1] obtain out
      where out: "adjust_color s f = Inr out" "well_formed_color out" by blast
    from out_channels_darken(1) [OF c f0 1] out(1)
    have "hex_to_rgb out = Inr (darken r f, darken g f, darken b f)"
      by (simp add: out_channels_def)
    moreover have "0 \<le> darken r f" "darken r f \<le> 255" "0 \<le> darken g f" "darken g f \<le> 255"
      "0 \<le> darken b f" "darken b f \<le> 255"
      using c f0 1 darken_le [of r f] darken_le [of g f] darken_le [of b f]
      by (simp_all add: darken_floor(2))
    ultimately show ?thesis using out by blast
  next
    case 2
    from out_channels_same(2) [OF c] obtain out
      where out: "adjust_color s 1 = Inr out" "well_formed_color out" by blast
    from out_channels_same(1) [OF c] out(1) have "hex_to_rgb out = Inr (r, g, b)"
      by (simp add: out_channels_def)
    with out c 2 show ?thesis by blast
  next
    case 3
    from out_channels_lighten(2) [OF c 3] obtain out
      where out: "adjust_color s f = Inr out" "well_formed_color out" by blast
    from out_channels_lighten(1) [OF c 3] out(1)
    have "hex_to_rgb out = Inr (lighten r f, lighten g f, lighten b f)"
      by (simp add: out_channels_def)
    moreover have "0 \<le> lighten r f" "lighten r f \<le> 255" "0 \<le> lighten g f" "lighten g f \<le> 255"
      "0 \<le> lighten b f" "lighten b f \<le> 255"
      using c 3 lighten_ge [of r f] lighten_ge [of g f] lighten_ge [of b f]
      by (simp_all add: lighten_le_255)
    ultimately show ?thesis using out by blast
  qed
qed

theorem adjust_color_well_formed_witness:
  "is_hex_color ''#0077ED'' \<and> (1 / 2 :: real) \<le> 5 / 4 \<and> (5 / 4 :: real) \<le> 3 / 2
   \<and> adjust_color ''#0077ED'' (5 / 4) = Inr ''#3f99f1''
   \<and> well_formed_color ''#3f99f1''
   \<and> hex_to_rgb ''#3f99f1'' = Inr (63, 153, 241)"
proof -
  have h: "is_hex_color ''#0077ED''" by (simp add: eval_color)
  have f: "(1 / 2 :: real) \<le> 5 / 4" "(5 / 4 :: real) \<le> 3 / 2" by simp_all
  have v: "adjust_color ''#0077ED'' (5 / 4) = Inr ''#3f99f1''" by (simp add: eval_color)
  from adjust_color_well_formed [OF h f] v
  obtain r g b where "well_formed_color ''#3f99f1''" "hex_to_rgb ''#3f99f1'' = Inr (r, g, b)"
    by auto
  moreover have "hex_to_rgb ''#3f99f1'' = Inr (63, 153, 241)" by (simp add: eval_color)
  ultimately show ?thesis using h f v by simp
qed

lemma darken_bracket:
  assumes "0 \<le> c" "c \<le> 255" "0 \<le> f" "f < 1"
  shows "\<lfloor>of_int c * f\<rfloor> \<le> darken c f" and "darken c f \<le> \<lceil>of_int c * f\<rceil>"
proof -
  let ?x = "real_of_int c * f"
  have x0: "0 \<le> ?x" using assms by simp
  have "?x \<le> of_int c * 1" using assms by (intro mult_left_mono) simp_all
  then have xc: "?x \<le> 255" using assms by simp
  have n0: "0 \<le> \<lfloor>?x\<rfloor>" using x0 by simp
  have n1: "\<lfloor>?x\<rfloor> \<le> 255" using xc by (simp add: floor_le_iff)
  have m0: "0 \<le> \<lceil>?x\<rceil>" using x0 ceiling_mono [of 0 ?x] by simp
  have m1: "\<lceil>?x\<rceil> \<le> 255" using xc by (simp add: ceiling_le_iff)
  have d: "darken c f = \<lfloor>fl53 ?x\<rfloor>" using assms by (simp add: darken_floor(1))
  have "fl53 (of_int \<lfloor>?x\<rfloor>) \<le> fl53 ?x" by (intro fl53_mono) simp
  then have "of_int \<lfloor>?x\<rfloor> \<le> fl53 ?x" using n0 n1 by (simp add: fl53_byte)
  then show "\<lfloor>?x\<rfloor> \<le> darken c f" unfolding d by (simp add: le_floor_iff)
  have "fl53 ?x \<le> fl53 (of_int \<lceil>?x\<rceil>)" by (intro fl53_mono) simp
  then have "fl53 ?x \<le> of_int \<lceil>?x\<rceil>" using m0 m1 by (simp add: fl53_byte)
  then show "darken c f \<le> \<lceil>?x\<rceil>" unfolding d by (simp add: floor_le_iff)
qed

text \<open>
  Claim C8, as it is written, fails where it says that below 1 each channel equals the
  floor of channel times factor. The product is a float product, rounded before
  \<open>int()\<close> cuts it: for channel 5 and the factor 0.6 (the double nearest to it) the
  true product is just below 3 and its floor is 2, while the function returns 3. For a
  negative factor \<open>int()\<close> rounds towards zero, so not even the floor of the float
  product is returned: channel 3 and factor -0.5 give -1, not -2.
\<close>

theorem adjust_color_floor_counterexample:
  "is_hex_color ''#050505'' \<and> hex_to_rgb ''#050505'' = Inr (5, 5, 5)
   \<and> 0 \<le> fl53 (3 / 5) \<and> fl53 (3 / 5) < 1
   \<and> out_channels ''#050505'' (fl53 (3 / 5)) = Inr (3, 3, 3)
   \<and> \<lfloor>5 * fl53 (3 / 5)\<rfloor> = 2
   \<and> is_hex_color ''#030303'' \<and> hex_to_rgb ''#030303'' = Inr (3, 3, 3)
   \<and> out_channels ''#030303'' (- 1 / 2) = Inr (- 1, - 1, - 1)
   \<and> \<lfloor>fl53 (3 * (- 1 / 2))\<rfloor> = - 2"
  by (simp add: eval_color)

text \<open>
  Claim C8, amended. For \<open>#\<close> and six hexadecimal digits, every channel of the result
  is monotone in the brightness factor. Below 1, for a factor that is not negative: a
  smaller factor gives a channel that is no larger; each channel is the floor of the
  float product of the channel and the factor (the product rounded to the nearest
  double), which lies between the floor and the ceiling of the true product; and it
  never exceeds the channel of the argument. Above 1: a larger factor gives a channel
  that is no smaller, and no channel exceeds 255.
\<close>

theorem adjust_color_monotone:
  assumes "is_hex_color s"
  shows "\<exists>r g b. hex_to_rgb s = Inr (r, g, b) \<and>
     (0 \<le> f1 \<and> f1 \<le> f2 \<and> f2 < 1 \<longrightarrow>
        (\<exists>c1 c2. out_channels s f1 = Inr c1 \<and> out_channels s f2 = Inr c2
           \<and> channels_le c1 c2 \<and> channels_le c2 (r, g, b)
           \<and> c1 = (\<lfloor>fl53 (of_int r * f1)\<rfloor>, \<lfloor>fl53 (of_int g * f1)\<rfloor>,
                   \<lfloor>fl53 (of_int b * f1)\<rfloor>)
           \<and> c2 = (\<lfloor>fl53 (of_int r * f2)\<rfloor>, \<lfloor>fl53 (of_int g * f2)\<rfloor>,
                   \<lfloor>fl53 (of_int b * f2)\<rfloor>)
           \<and> channels_le (\<lfloor>of_int r * f1\<rfloor>, \<lfloor>of_int g * f1\<rfloor>, \<lfloor>of_int b * f1\<rfloor>) c1
           \<and> channels_le c1 (\<lceil>of_int r * f1\<rceil>, \<lceil>of_int g * f1\<rceil>, \<lceil>of_int b * f1\<rceil>)
           \<and> channels_le (\<lfloor>of_int r * f2\<rfloor>, \<lfloor>of_int g * f2\<rfloor>, \<lfloor>of_int b * f2\<rfloor>) c2
           \<and> channels_le c2 (\<lceil>of_int r * f2\<rceil>, \<lceil>of_int g * f2\<rceil>, \<lceil>of_int b * f2\<rceil>))) \<and>
     (1 < f1 \<and> f1 \<le> f2 \<longrightarrow>
        (\<exists>c1 c2. out_channels s f1 = Inr c1 \<and> out_channels s f2 = Inr c2
           \<and> channels_le c1 c2 \<and> channels_le c2 (255, 255, 255)))"
proof -
  from assms obtain r g b where c: "hex_to_rgb s = Inr (r, g, b)"
    "0 \<le> r" "r \<le> 255" "0 \<le> g" "g \<le> 255" "0 \<le> b" "b \<le> 255"
    by (rule hex_to_rgb_range)
  have dark: "\<exists>c1 c2. out_channels s f1 = Inr c1 \<and> out_channels s f2 = Inr c2
           \<and> channels_le c1 c2 \<and> channels_le c2 (r, g, b)
           \<and> c1 = (\<lfloor>fl53 (of_int r * f1)\<rfloor>, \<lfloor>fl53 (of_int g * f1)\<rfloor>,
                   \<lfloor>fl53 (of_int b * f1)\<rfloor>)
           \<and> c2 = (\<lfloor>fl53 (of_int r * f2)\<rfloor>, \<lfloor>fl53 (of_int g * f2)\<rfloor>,
                   \<lfloor>fl53 (of_int b * f2)\<rfloor>)
           \<and> channels_le (\<lfloor>of_int r * f1\<rfloor>, \<lfloor>of_int g * f1\<rfloor>, \<lfloor>of_int b * f1\<rfloor>) c1
           \<and> channels_le c1 (\<lceil>of_int r * f1\<rceil>, \<lceil>of_int g * f1\<rceil>, \<lceil>of_int b * f1\<rceil>)
           \<and> channels_le (\<lfloor>of_int r * f2\<rfloor>, \<lfloor>of_int g * f2\<rfloor>, \<lfloor>of_int b * f2\<rfloor>) c2
           \<and> channels_le c2 (\<lceil>of_int r * f2\<rceil>, \<lceil>of_int g * f2\<rceil>, \<lceil>of_int b * f2\<rceil>)"
    if f: "0 \<le> f1" "f1 \<le> f2" "f2 < 1"
  proof -
    from f have f': "f1 < 1" "0 \<le> f2" by simp_all
    let ?d1 = "(darken r f1, darken g f1, darken b f1)"
    let ?d2 = "(darken r f2, darken g f2, darken b f2)"
    have o1: "out_channels s f1 = Inr ?d1"
      using c f(1) f'(1) by (rule out_channels_darken(1))
    have o2: "out_channels s f2 = Inr ?d2"
      using c f'(2) f(3) by (rule out_channels_darken(1))
    have m: "channels_le ?d1 ?d2"
      using c f(2) by (simp add: darken_mono)
    have u: "channels_le ?d2 (r, g, b)"
      using c f(3) by (simp add: darken_le)
    have fl1: "?d1
        = (\<lfloor>fl53 (of_int r * f1)\<rfloor>, \<lfloor>fl53 (of_int g * f1)\<rfloor>, \<lfloor>fl53 (of_int b * f1)\<rfloor>)"
      using c f(1) by (simp add: darken_floor(1))
    have fl2: "?d2
        = (\<lfloor>fl53 (of_int r * f2)\<rfloor>, \<lfloor>fl53 (of_int g * f2)\<rfloor>, \<lfloor>fl53 (of_int b * f2)\<rfloor>)"
      using c f'(2) by (simp add: darken_floor(1))
    have lo1: "channels_le (\<lfloor>of_int r * f1\<rfloor>, \<lfloor>of_int g * f1\<rfloor>, \<lfloor>of_int b * f1\<rfloor>) ?d1"
      using c f(1) f'(1) by (simp add: darken_bracket(1))
    have hi1: "channels_le ?d1 (\<lceil>of_int r * f1\<rceil>, \<lceil>of_int g * f1\<rceil>, \<lceil>of_int b * f1\<rceil>)"
      using c f(1) f'(1) by (simp add: darken_bracket(2))
    have lo2: "channels_le (\<lfloor>of_int r * f2\<rfloor>, \<lfloor>of_int g * f2\<rfloor>, \<lfloor>of_int b * f2\<rfloor>) ?d2"
      using c f'(2) f(3) by (simp add: darken_bracket(1))
    have hi2: "channels_le ?d2 (\<lceil>of_int r * f2\<rceil>, \<lceil>of_int g * f2\<rceil>, \<lceil>of_int b * f2\<rceil>)"
      using c f'(2) f(3) by (simp add: darken_bracket(2))
    from o1 o2 m u fl1 fl2 lo1 hi1 lo2 hi2 show ?thesis
      by (intro exI [of _ ?d1] exI [of _ ?d2] conjI)
  qed
  have light: "\<exists>c1 c2. out_channels s f1 = Inr c1 \<and> out_channels s f2 = Inr c2
           \<and> channels_le c1 c2 \<and> channels_le c2 (255, 255, 255)"
    if f: "1 < f1" "f1 \<le> f2"
  proof -
    from f have f': "1 < f2" by simp
    have o1: "out_channels s f1 = Inr (lighten r f1, lighten g f1, lighten b f1)"
      using c f(1) by (rule out_channels_lighten(1))
    have o2: "out_channels s f2 = Inr (lighten r f2, lighten g f2, lighten b f2)"
      using c f' by (rule out_channels_lighten(1))
    have m: "channels_le (lighten r f1, lighten g f1, lighten b f1)
                         (lighten r f2, lighten g f2, lighten b f2)"
      using c f(2) by (simp add: lighten_mono)
    have u: "channels_le (lighten r f2, lighten g f2, lighten b f2) (255, 255, 255)"
      by (simp add: lighten_le_255)
    from o1 o2 m u show ?thesis by blast
  qed
  from c(1) dark light show ?thesis by blast
qed

theorem adjust_color_monotone_witness:
  "is_hex_color ''#0077ED''
   \<and> (0 :: real) \<le> 1 / 2 \<and> (1 / 2 :: real) \<le> 3 / 4 \<and> (3 / 4 :: real) < 1
   \<and> out_channels ''#0077ED'' (1 / 2) = Inr (0, 59, 118)
   \<and> out_channels ''#0077ED'' (3 / 4) = Inr (0, 89, 177)
   \<and> channels_le (0, 59, 118) (0, 89, 177) \<and> channels_le (0, 89, 177) (0, 119, 237)
   \<and> (1 :: real) < 5 / 4 \<and> (5 / 4 :: real) \<le> 3 / 2
   \<and> out_channels ''#0077ED'' (5 / 4) = Inr (63, 153, 241)
   \<and> out_channels ''#0077ED'' (3 / 2) = Inr (127, 187, 246)
   \<and> channels_le (63, 153, 241) (127, 187, 246) \<and> channels_le (127, 187, 246) (255, 255, 255)"
proof -
  have h: "is_hex_color ''#0077ED''" by (simp add: eval_color)
  have c: "hex_to_rgb ''#0077ED'' = Inr (0, 119, 237)" by (simp add: eval_color)
  have v: "out_channels ''#0077ED'' (1 / 2) = Inr (0, 59, 118)"
    "out_channels ''#0077ED'' (3 / 4) = Inr (0, 89, 177)"
    "out_channels ''#0077ED'' (5 / 4) = Inr (63, 153, 241)"
    "out_channels ''#0077ED'' (3 / 2) = Inr (127, 187, 246)"
    by (simp_all add: eval_color)
  from adjust_color_monotone [OF h, of "1 / 2" "3 / 4"] c v
  have d: "channels_le (0, 59, 118) (0, 89, 177) \<and> channels_le (0, 89, 177) (0, 119, 237)"
    by auto
  from adjust_color_monotone [OF h, of "5 / 4" "3 / 2"] c v
  have l: "channels_le (63, 153, 241) (127, 187, 246) \<and> channels_le (127, 187, 246) (255, 255, 255)"
    by auto
  from h v d l show ?thesis by simp
qed

section \<open>Properties of \<open>process_image\<close>\<close>

lemma process_image_saves_original:
  assumes "process_image w out_folder img_path model labels = (Inr r, effs)"
  shows "\<exists>img predicted_class confidence.
           image_open w img_path = Inr img
         \<and> r = (img_path, predicted_class, confidence,
                path_join (path_join out_folder predicted_class) (basename img_path))
         \<and> effs = [SaveImage (path_join (path_join out_folder predicted_class)
                                (basename img_path)) img]"
  using assms
  by (auto simp: process_image_def Let_def split: sum.splits if_splits option.splits)

lemma process_image_ml_saves_resized:
  assumes "process_image_ml w out_folder img_path model labels = (Some r, evs, effs)"
  shows "\<exists>img predicted_class confidence.
           image_open w img_path = Inr img
         \<and> r = (img_path, predicted_class, confidence,
                path_join (path_join out_folder predicted_class) (basename img_path))
         \<and> evs = []
         \<and> effs = [SaveImage (path_join (path_join out_folder predicted_class)
                                (basename img_path)) (resize w img (224, 224))]"
  using assms
  by (auto simp: process_image_ml_def Let_def split: sum.splits if_splits option.splits)

text \<open>
  Claim C2. A successful \<open>process_image\<close> is to save the original decoded image, not
  the 224 by 224 copy, under \<open>output_folder/<class>/<filename>\<close>. The function of
  \<open>classification.py\<close> does (\<open>process_image_saves_original\<close>). The function of
  \<open>ml.py\<close> saves the resized copy (\<open>process_image_ml_saves_resized\<close>): below, a
  640 by 480 image that classifies as \<open>cat\<close> is written by \<open>ml.py\<close> as a
  224 by 224 image, and by \<open>classification.py\<close> at its own size.
\<close>

theorem process_image_ml_saves_224:
  "process_image_ml
     \<lparr>image_open = \<lambda>p. Inr \<lparr>img_width = 640, img_height = 480,
                              img_pixels = replicate (3 * 640 * 480) 200\<rparr>,
      resample = \<lambda>img w h. replicate (3 * w * h) 200,
      predict = \<lambda>(m :: unit) a. Inr [1 / 10, 9 / 10],
      save_error = \<lambda>p img. None\<rparr>
     ''out'' ''in/cat.jpg'' () [''dog'', ''cat'']
   = (Some (''in/cat.jpg'', ''cat'', 9 / 10, ''out/cat/cat.jpg''), [],
      [SaveImage ''out/cat/cat.jpg''
         \<lparr>img_width = 224, img_height = 224, img_pixels = replicate (3 * 224 * 224) 200\<rparr>])
   \<and> process_image
     \<lparr>image_open = \<lambda>p. Inr \<lparr>img_width = 640, img_height = 480,
                              img_pixels = replicate (3 * 640 * 480) 200\<rparr>,
      resample = \<lambda>img w h. replicate (3 * w * h) 200,
      predict = \<lambda>(m :: unit) a. Inr [1 / 10, 9 / 10],
      save_error = \<lambda>p img. None\<rparr>
     ''out'' ''in/cat.jpg'' () [''dog'', ''cat'']
   = (Inr (''in/cat.jpg'', ''cat'', 9 / 10, ''out/cat/cat.jpg''),
      [SaveImage ''out/cat/cat.jpg''
         \<lparr>img_width = 640, img_height = 480, img_pixels = replicate (3 * 640 * 480) 200\<rparr>])"
  by (simp add: process_image_ml_def process_image_def resize_def np_argmax_def path_join_def
        basename_def Let_def)

section \<open>Properties of the run\<close>

subsection \<open>Orders\<close>

lemma mset_arrange: "mset (arrange choice k xs) = mset xs"
proof (induction choice k xs rule: arrange.induct)
  case (1 choice k xs)
  show ?case
  proof (cases "xs = []")
    case True
    then show ?thesis by (simp add: arrange.simps [of choice k "[]"])
  next
    case False
    define i where "i = choice k mod length xs"
    have i: "i < length xs" using False by (simp add: i_def)
    have "mset (arrange choice k xs) = add_mset (xs ! i) (mset (take i xs @ drop (Suc i) xs))"
      using False 1 [OF False i_def] by (simp add: arrange.simps [of choice k xs] i_def Let_def)
    also have "\<dots> = mset (take i xs @ xs ! i # drop (Suc i) xs)" by simp
    also have "take i xs @ xs ! i # drop (Suc i) xs = xs" using i by (rule id_take_nth_drop [symmetric])
    finally show ?thesis .
  qed
qed

lemma set_arrange: "set (arrange choice k xs) = set xs"
  using mset_arrange [of choice k xs] by (metis set_mset_mset)

lemma length_arrange: "length (arrange choice k xs) = length xs"
  using mset_arrange [of choice k xs] by (metis size_mset)

lemma distinct_arrange: "distinct (arrange choice k xs) = distinct xs"
  using mset_arrange [of choice k xs] by (metis mset_eq_imp_distinct_iff)

lemma distinct_discover: "distinct (discover w folders)"
  by (simp add: discover_def distinct_arrange)

subsection \<open>Taking the futures (\<open>classification.py\<close>)\<close>

lemma drain_results:
  "r \<in> set (fst (drain R W b j ps)) \<Longrightarrow> \<exists>p \<in> set ps. W p = Inr r"
  by (induction ps arbitrary: j r)
     (auto simp: case_prod_beta split: if_splits sum.splits)

lemma drain_events:
  "ev \<in> set (snd (drain R W b j ps)) \<Longrightarrow>
   \<exists>p \<in> set ps. \<exists>e. W p = Inl e \<and> ev = Error (''Error processing '' @ basename p @ '': '' @ str e)"
  by (induction ps arbitrary: j ev)
     (auto simp: case_prod_beta split: if_splits sum.splits)

lemma drain_length:
  "length (fst (drain R W b j ps)) \<le> length (filter (\<lambda>p. \<not> isl (W p)) ps)"
  by (induction ps arbitrary: j)
     (auto simp: case_prod_beta split: if_splits sum.splits)

lemma drain_running:
  assumes "\<And>q. R q"
  shows "fst (drain R W b j ps) = map (\<lambda>p. projr (W p)) (filter (\<lambda>p. \<not> isl (W p)) ps)"
    and "snd (drain R W b j ps) =
           map (\<lambda>p. Error (''Error processing '' @ basename p @ '': '' @ str (projl (W p))))
             (filter (\<lambda>p. isl (W p)) ps)"
  using assms
  by (induction ps arbitrary: j)
     (auto simp: case_prod_beta split: if_splits sum.splits)

subsection \<open>Reporting the results (\<open>classification.py\<close>)\<close>

lemma report_count:
  "c \<le> snd (report R N b j rs c) \<and> snd (report R N b j rs c) \<le> c + length rs"
proof (induction rs arbitrary: j c)
  case Nil
  then show ?case by simp
next
  case (Cons r rs)
  obtain p cl conf out where r: "r = (p, cl, conf, out)" by (cases r) auto
  from Cons [where j = "Suc j" and c = "c + 1"] show ?case
    by (auto simp: r case_prod_beta)
qed

lemma report_progress:
  "filter is_progress (fst (report R N b j rs c))
     = map (\<lambda>i. ProgressUpdate (c + Suc i) N) [0..<snd (report R N b j rs c) - c]"
proof (induction rs arbitrary: j c)
  case Nil
  then show ?case by simp
next
  case (Cons r rs)
  obtain p cl conf out where r: "r = (p, cl, conf, out)" by (cases r) auto
  show ?case
  proof (cases "R (Reporting b j)")
    case False
    then show ?thesis by (simp add: r)
  next
    case True
    let ?n = "snd (report R N b (Suc j) rs (c + 1))"
    have le: "c + 1 \<le> ?n" using report_count [where c = "c + 1" and j = "Suc j" and rs = rs and R = R and N = N and b = b] by simp
    then have d: "?n - c = Suc (?n - (c + 1))" by simp
    have "filter is_progress (fst (report R N b j (r # rs) c))
        = ProgressUpdate (c + 1) N # filter is_progress (fst (report R N b (Suc j) rs (c + 1)))"
      using True by (simp add: r case_prod_beta)
    also have "\<dots> = ProgressUpdate (c + 1) N
         # map (\<lambda>i. ProgressUpdate (c + 1 + Suc i) N) [0..<?n - (c + 1)]"
      by (simp only: Cons.IH)
    also have "\<dots> = map (\<lambda>i. ProgressUpdate (c + Suc i) N) [0..<Suc (?n - (c + 1))]"
      by (simp only: map_upt_Suc) simp
    finally show ?thesis using True d by (simp add: r case_prod_beta)
  qed
qed

lemma report_running:
  assumes "\<And>q. R q"
  shows "snd (report R N b j rs c) = c + length rs"
  using assms
proof (induction rs arbitrary: j c)
  case Nil
  then show ?case by simp
next
  case (Cons r rs)
  obtain p cl conf out where r: "r = (p, cl, conf, out)" by (cases r) auto
  from Cons show ?case by (simp add: r case_prod_beta)
qed

lemma report_running_results:
  assumes "\<And>q. R q" "(p, cl, conf, out) \<in> set rs"
  shows "ResultUpdate p cl (format_2f conf) \<in> set (fst (report R N b j rs c))"
  using assms
proof (induction rs arbitrary: j c)
  case Nil
  then show ?case by simp
next
  case (Cons r rs)
  obtain p' cl' conf' out' where r: "r = (p', cl', conf', out')" by (cases r) auto
  from Cons show ?case by (auto simp: r case_prod_beta)
qed

lemma report_events:
  "ev \<in> set (fst (report R N b j rs c)) \<Longrightarrow>
   (\<exists>p cl conf out. (p, cl, conf, out) \<in> set rs \<and> ev = ResultUpdate p cl (format_2f conf))
   \<or> (\<exists>n. ev = ProgressUpdate n N)"
proof (induction rs arbitrary: j c)
  case Nil
  then show ?case by simp
next
  case (Cons r rs)
  obtain p' cl' conf' out' where r: "r = (p', cl', conf', out')" by (cases r) auto
  from Cons.prems Cons.IH [where j = "Suc j" and c = "c + 1"] show ?case
    by (auto simp: r case_prod_beta split: if_splits)
qed

subsection \<open>The loop over the batches (\<open>classification.py\<close>)\<close>

lemma batch_loop_step:
  assumes "R (BatchTop b)"
  shows "batch_loop R C W N b (bf # rest) c =
     snd (drain R W b 0 (arrange (C b) 0 bf))
     @ fst (report R N b 0 (fst (drain R W b 0 (arrange (C b) 0 bf))) c)
     @ batch_loop R C W N (Suc b) rest
         (snd (report R N b 0 (fst (drain R W b 0 (arrange (C b) 0 bf))) c))"
  using assms by (simp add: case_prod_beta)

lemma batch_loop_stopped: "\<not> R (BatchTop b) \<Longrightarrow> batch_loop R C W N b bs c = []"
  by (cases bs) simp_all

lemma filter_arrange_length:
  "length (filter P (arrange choice k xs)) = length (filter P xs)"
proof -
  have "mset (filter P (arrange choice k xs)) = mset (filter P xs)"
    by (simp add: mset_arrange)
  then show ?thesis by (metis size_mset)
qed

lemma drain_no_progress: "filter is_progress (snd (drain R W b j ps)) = []"
proof -
  have "\<not> is_progress ev" if "ev \<in> set (snd (drain R W b j ps))" for ev
    using drain_events [OF that] by auto
  then show ?thesis by (simp add: filter_empty_conv)
qed

lemma map_upt_append:
  "map f [0..<k] @ map (\<lambda>i. f (k + i)) [0..<m] = map f [0..<k + m]"
  by (induction m) simp_all

lemma batch_loop_progress:
  "\<exists>m. filter is_progress (batch_loop R C W N b bs c)
          = map (\<lambda>i. ProgressUpdate (c + Suc i) N) [0..<m]
      \<and> m \<le> length (filter (\<lambda>p. \<not> isl (W p)) (concat bs))
      \<and> ((\<forall>q. R q) \<longrightarrow> m = length (filter (\<lambda>p. \<not> isl (W p)) (concat bs)))"
proof (induction bs arbitrary: b c)
  case Nil
  show ?case by simp
next
  case (Cons bf rest)
  show ?case
  proof (cases "R (BatchTop b)")
    case False
    then have "filter is_progress (batch_loop R C W N b (bf # rest) c)
        = map (\<lambda>i. ProgressUpdate (c + Suc i) N) [0..<0]"
      by (simp add: batch_loop_stopped)
    moreover have "(\<forall>q. R q) \<longrightarrow> 0 = length (filter (\<lambda>p. \<not> isl (W p)) (concat (bf # rest)))"
      using False by blast
    ultimately show ?thesis by blast
  next
    case True
    let ?ps = "arrange (C b) 0 bf"
    let ?rs = "fst (drain R W b 0 ?ps)"
    let ?n = "snd (report R N b 0 ?rs c)"
    define k where "k = ?n - c"
    have cn: "c \<le> ?n" "?n \<le> c + length ?rs" using report_count [of c R N b 0 ?rs] by simp_all
    then have n: "?n = c + k" by (simp add: k_def)
    have kl: "k \<le> length (filter (\<lambda>p. \<not> isl (W p)) bf)"
      using cn drain_length [of R W b 0 ?ps] by (simp add: k_def filter_arrange_length)
    from Cons [of "Suc b" "?n"] obtain m where
      m: "filter is_progress (batch_loop R C W N (Suc b) rest ?n)
            = map (\<lambda>i. ProgressUpdate (?n + Suc i) N) [0..<m]"
         "m \<le> length (filter (\<lambda>p. \<not> isl (W p)) (concat rest))"
         "(\<forall>q. R q) \<longrightarrow> m = length (filter (\<lambda>p. \<not> isl (W p)) (concat rest))"
      by blast
    have "filter is_progress (batch_loop R C W N b (bf # rest) c)
        = map (\<lambda>i. ProgressUpdate (c + Suc i) N) [0..<k]
          @ map (\<lambda>i. ProgressUpdate (c + Suc (k + i)) N) [0..<m]"
      unfolding batch_loop_step [where R = R and b = b, OF True] filter_append drain_no_progress report_progress m(1)
      by (simp add: k_def [symmetric] n)
    also have "\<dots> = map (\<lambda>i. ProgressUpdate (c + Suc i) N) [0..<k + m]"
      by (rule map_upt_append [where f = "\<lambda>i. ProgressUpdate (c + Suc i) N"])
    finally have one: "filter is_progress (batch_loop R C W N b (bf # rest) c)
        = map (\<lambda>i. ProgressUpdate (c + Suc i) N) [0..<k + m]" .
    have two: "k + m \<le> length (filter (\<lambda>p. \<not> isl (W p)) (concat (bf # rest)))"
      using kl m(2) by simp
    have three: "k + m = length (filter (\<lambda>p. \<not> isl (W p)) (concat (bf # rest)))"
      if all: "\<forall>q. R q"
    proof -
      from all have a: "\<And>q. R q" by blast
      have "length ?rs = length (filter (\<lambda>p. \<not> isl (W p)) bf)"
        by (simp add: drain_running(1) [OF a] filter_arrange_length)
      moreover have "?n = c + length ?rs" using a by (rule report_running)
      ultimately have "k = length (filter (\<lambda>p. \<not> isl (W p)) bf)" by (simp add: k_def)
      with m(3) all show ?thesis by simp
    qed
    from one two three show ?thesis by blast
  qed
qed

lemma batch_loop_events:
  assumes "ev \<in> set (batch_loop R C W N b bs c)"
  shows "(\<exists>k p e. k < length bs \<and> (\<forall>i \<le> k. R (BatchTop (b + i))) \<and> p \<in> set (bs ! k)
            \<and> W p = Inl e
            \<and> ev = Error (''Error processing '' @ basename p @ '': '' @ str e))
       \<or> (\<exists>k p p' cl conf out. k < length bs \<and> (\<forall>i \<le> k. R (BatchTop (b + i)))
            \<and> p \<in> set (bs ! k) \<and> W p = Inr (p', cl, conf, out)
            \<and> ev = ResultUpdate p' cl (format_2f conf))
       \<or> (\<exists>n. ev = ProgressUpdate n N)"
  using assms
proof (induction bs arbitrary: b c)
  case Nil
  then show ?case by simp
next
  case (Cons bf rest)
  show ?case
  proof (cases "R (BatchTop b)")
    case False
    with Cons.prems show ?thesis by (simp add: batch_loop_stopped)
  next
    case True
    let ?ps = "arrange (C b) 0 bf"
    let ?rs = "fst (drain R W b 0 ?ps)"
    let ?n = "snd (report R N b 0 ?rs c)"
    from Cons.prems consider
        (d) "ev \<in> set (snd (drain R W b 0 ?ps))"
      | (r) "ev \<in> set (fst (report R N b 0 ?rs c))"
      | (l) "ev \<in> set (batch_loop R C W N (Suc b) rest ?n)"
      unfolding batch_loop_step [where R = R and b = b, OF True] by auto
    then show ?thesis
    proof cases
      case d
      from drain_events [OF d] obtain p e where "p \<in> set bf" "W p = Inl e"
        "ev = Error (''Error processing '' @ basename p @ '': '' @ str e)"
        by (auto simp: set_arrange)
      with True have "0 < length (bf # rest) \<and> (\<forall>i \<le> 0. R (BatchTop (b + i)))
          \<and> p \<in> set ((bf # rest) ! 0) \<and> W p = Inl e
          \<and> ev = Error (''Error processing '' @ basename p @ '': '' @ str e)" by simp
      then show ?thesis by blast
    next
      case r
      from report_events [OF r] consider
          (res) p' cl conf out where "(p', cl, conf, out) \<in> set ?rs"
            "ev = ResultUpdate p' cl (format_2f conf)"
        | (prog) n where "ev = ProgressUpdate n N" by blast
      then show ?thesis
      proof cases
        case res
        from drain_results [OF res(1)] obtain p where "p \<in> set bf" "W p = Inr (p', cl, conf, out)"
          by (auto simp: set_arrange)
        with True res(2) have "0 < length (bf # rest) \<and> (\<forall>i \<le> 0. R (BatchTop (b + i)))
          \<and> p \<in> set ((bf # rest) ! 0) \<and> W p = Inr (p', cl, conf, out)
          \<and> ev = ResultUpdate p' cl (format_2f conf)" by simp
        then show ?thesis by blast
      next
        case prog
        then show ?thesis by blast
      qed
    next
      case l
      have up: "\<forall>i \<le> Suc k. R (BatchTop (b + i))" if "\<forall>i \<le> k. R (BatchTop (Suc b + i))" for k
      proof (intro allI impI)
        fix i assume "i \<le> Suc k"
        show "R (BatchTop (b + i))"
        proof (cases i)
          case 0
          with True show ?thesis by simp
        next
          case (Suc i')
          with \<open>i \<le> Suc k\<close> that show ?thesis by simp
        qed
      qed
      from Cons.IH [OF l] consider
          (e) k p e where "k < length rest" "\<forall>i \<le> k. R (BatchTop (Suc b + i))" "p \<in> set (rest ! k)"
             "W p = Inl e" "ev = Error (''Error processing '' @ basename p @ '': '' @ str e)"
        | (res) k p p' cl conf out where "k < length rest" "\<forall>i \<le> k. R (BatchTop (Suc b + i))"
             "p \<in> set (rest ! k)" "W p = Inr (p', cl, conf, out)"
             "ev = ResultUpdate p' cl (format_2f conf)"
        | (prog) n where "ev = ProgressUpdate n N" by blast
      then show ?thesis
      proof cases
        case e
        then have "Suc k < length (bf # rest) \<and> (\<forall>i \<le> Suc k. R (BatchTop (b + i)))
          \<and> p \<in> set ((bf # rest) ! Suc k) \<and> W p = Inl e
          \<and> ev = Error (''Error processing '' @ basename p @ '': '' @ str e)"
          using up [of k] by simp
        then show ?thesis by blast
      next
        case res
        then have "Suc k < length (bf # rest) \<and> (\<forall>i \<le> Suc k. R (BatchTop (b + i)))
          \<and> p \<in> set ((bf # rest) ! Suc k) \<and> W p = Inr (p', cl, conf, out)
          \<and> ev = ResultUpdate p' cl (format_2f conf)"
          using up [of k] by simp
        then show ?thesis by blast
      next
        case prog
        then show ?thesis by blast
      qed
    qed
  qed
qed

lemma batch_loop_running_complete:
  assumes "\<And>q. R q" "p \<in> set (concat bs)"
  shows "(\<forall>e. W p = Inl e \<longrightarrow>
            Error (''Error processing '' @ basename p @ '': '' @ str e)
              \<in> set (batch_loop R C W N b bs c))
       \<and> (\<forall>p' cl conf out. W p = Inr (p', cl, conf, out) \<longrightarrow>
            ResultUpdate p' cl (format_2f conf) \<in> set (batch_loop R C W N b bs c))"
  using assms(2)
proof (induction bs arbitrary: b c)
  case Nil
  then show ?case by simp
next
  case (Cons bf rest)
  let ?ps = "arrange (C b) 0 bf"
  let ?rs = "fst (drain R W b 0 ?ps)"
  let ?n = "snd (report R N b 0 ?rs c)"
  have step: "batch_loop R C W N b (bf # rest) c =
     snd (drain R W b 0 ?ps) @ fst (report R N b 0 ?rs c) @ batch_loop R C W N (Suc b) rest ?n"
    using assms(1) [of "BatchTop b"] by (rule batch_loop_step [where R = R and b = b])
  from Cons.prems consider "p \<in> set bf" | "p \<in> set (concat rest)" by auto
  then show ?case
  proof cases
    case 1
    then have in_ps: "p \<in> set ?ps" by (simp add: set_arrange)
    have err: "Error (''Error processing '' @ basename p @ '': '' @ str e)
        \<in> set (snd (drain R W b 0 ?ps))" if "W p = Inl e" for e
      using that in_ps by (auto simp: drain_running(2) [OF assms(1)] image_iff intro!: bexI [of _ p])
    have res: "ResultUpdate p' cl (format_2f conf) \<in> set (fst (report R N b 0 ?rs c))"
      if w: "W p = Inr (p', cl, conf, out)" for p' cl conf out
    proof -
      have "(p', cl, conf, out) \<in> set ?rs"
        using w in_ps by (auto simp: drain_running(1) [OF assms(1)] image_iff intro!: bexI [of _ p])
      with assms(1) show ?thesis by (rule report_running_results)
    qed
    from err res show ?thesis unfolding step by auto
  next
    case 2
    from Cons.IH [OF 2, of "Suc b" ?n] show ?thesis unfolding step by auto
  qed
qed

subsection \<open>Taking the futures (\<open>ml.py\<close>)\<close>

lemma drain_ml_results:
  "r \<in> set (fst (drain_ml R W N b j ps c)) \<Longrightarrow> \<exists>p \<in> set ps. fst (W p) = Some r"
  by (induction ps arbitrary: j c r)
     (auto simp: case_prod_beta split: if_splits option.splits)

lemma drain_ml_events:
  "ev \<in> set (fst (snd (drain_ml R W N b j ps c))) \<Longrightarrow>
   (\<exists>p \<in> set ps. ev \<in> set (snd (W p))) \<or> (\<exists>n. ev = ProgressUpdate n N)"
  by (induction ps arbitrary: j c ev)
     (auto simp: case_prod_beta split: if_splits option.splits)

lemma drain_ml_worker_events:
  "p \<in> set ps \<Longrightarrow> ev \<in> set (snd (W p)) \<Longrightarrow> ev \<in> set (fst (snd (drain_ml R W N b j ps c)))"
  by (induction ps arbitrary: j c)
     (auto simp: case_prod_beta split: if_splits option.splits)

lemma drain_ml_count:
  "c \<le> snd (snd (drain_ml R W N b j ps c))
   \<and> snd (snd (drain_ml R W N b j ps c)) \<le> c + length (filter (\<lambda>p. fst (W p) \<noteq> None) ps)"
proof (induction ps arbitrary: j c)
  case Nil
  then show ?case by simp
next
  case (Cons p ps)
  from Cons [where j = "Suc j" and c = c] Cons [where j = "Suc j" and c = "c + 1"]
  show ?case by (auto simp: case_prod_beta split: option.splits)
qed

lemma drain_ml_progress:
  assumes "\<And>p. filter is_progress (snd (W p)) = []"
  shows "filter is_progress (fst (snd (drain_ml R W N b j ps c)))
     = map (\<lambda>i. ProgressUpdate (c + Suc i) N) [0..<snd (snd (drain_ml R W N b j ps c)) - c]"
proof (induction ps arbitrary: j c)
  case Nil
  then show ?case by simp
next
  case (Cons p ps)
  show ?case
  proof (cases "R (Draining b j)")
    case False
    then show ?thesis using assms by (simp add: filter_concat o_def)
  next
    case True
    show ?thesis
    proof (cases "fst (W p)")
      case None
      with True Cons [where j = "Suc j" and c = c] assms show ?thesis
        by (simp add: case_prod_beta)
    next
      case (Some r)
      let ?n = "snd (snd (drain_ml R W N b (Suc j) ps (c + 1)))"
      have le: "c + 1 \<le> ?n"
        using drain_ml_count [where c = "c + 1" and j = "Suc j" and ps = ps and R = R and W = W
            and N = N and b = b] by simp
      then have d: "?n - c = Suc (?n - (c + 1))" by simp
      have "filter is_progress (fst (snd (drain_ml R W N b j (p # ps) c)))
          = ProgressUpdate (c + 1) N
            # filter is_progress (fst (snd (drain_ml R W N b (Suc j) ps (c + 1))))"
        using True Some assms by (simp add: case_prod_beta)
      also have "\<dots> = ProgressUpdate (c + 1) N
           # map (\<lambda>i. ProgressUpdate (c + 1 + Suc i) N) [0..<?n - (c + 1)]"
        by (simp only: Cons)
      also have "\<dots> = map (\<lambda>i. ProgressUpdate (c + Suc i) N) [0..<Suc (?n - (c + 1))]"
        by (simp only: map_upt_Suc) simp
      finally show ?thesis using True Some d by (simp add: case_prod_beta)
    qed
  qed
qed

lemma drain_ml_running:
  assumes "\<And>q. R q"
  shows "fst (drain_ml R W N b j ps c) = map (\<lambda>p. the (fst (W p))) (filter (\<lambda>p. fst (W p) \<noteq> None) ps)"
    and "snd (snd (drain_ml R W N b j ps c)) = c + length (filter (\<lambda>p. fst (W p) \<noteq> None) ps)"
  using assms
  by (induction ps arbitrary: j c)
     (auto simp: case_prod_beta split: option.splits)

subsection \<open>Reporting the results (\<open>ml.py\<close>)\<close>

lemma report_ml_events:
  "ev \<in> set (report_ml R b j rs) \<Longrightarrow>
   \<exists>p cl conf out. (p, cl, conf, out) \<in> set rs \<and> ev = ResultUpdate p cl (format_2f conf)"
proof (induction rs arbitrary: j)
  case Nil
  then show ?case by simp
next
  case (Cons r rs)
  obtain p' cl' conf' out' where r: "r = (p', cl', conf', out')" by (cases r) auto
  from Cons.prems Cons.IH [where j = "Suc j"] show ?case
    by (auto simp: r split: if_splits)
qed

lemma report_ml_running:
  assumes "\<And>q. R q" "(p, cl, conf, out) \<in> set rs"
  shows "ResultUpdate p cl (format_2f conf) \<in> set (report_ml R b j rs)"
  using assms
proof (induction rs arbitrary: j)
  case Nil
  then show ?case by simp
next
  case (Cons r rs)
  obtain p' cl' conf' out' where r: "r = (p', cl', conf', out')" by (cases r) auto
  from Cons show ?case by (auto simp: r)
qed

lemma report_ml_no_progress: "filter is_progress (report_ml R b j rs) = []"
proof -
  have "\<not> is_progress ev" if "ev \<in> set (report_ml R b j rs)" for ev
    using report_ml_events [OF that] by auto
  then show ?thesis by (simp add: filter_empty_conv)
qed

subsection \<open>The loop over the batches (\<open>ml.py\<close>)\<close>

lemma batch_loop_ml_step:
  assumes "R (BatchTop b)"
  shows "batch_loop_ml R C W N b (bf # rest) c =
     fst (snd (drain_ml R W N b 0 (arrange (C b) 0 bf) c))
     @ report_ml R b 0 (fst (drain_ml R W N b 0 (arrange (C b) 0 bf) c))
     @ batch_loop_ml R C W N (Suc b) rest
         (snd (snd (drain_ml R W N b 0 (arrange (C b) 0 bf) c)))"
  using assms by (simp add: case_prod_beta)

lemma batch_loop_ml_stopped: "\<not> R (BatchTop b) \<Longrightarrow> batch_loop_ml R C W N b bs c = []"
  by (cases bs) simp_all

lemma batch_loop_ml_progress:
  assumes w: "\<And>p. filter is_progress (snd (W p)) = []"
  shows "\<exists>m. filter is_progress (batch_loop_ml R C W N b bs c)
          = map (\<lambda>i. ProgressUpdate (c + Suc i) N) [0..<m]
      \<and> m \<le> length (filter (\<lambda>p. fst (W p) \<noteq> None) (concat bs))
      \<and> ((\<forall>q. R q) \<longrightarrow> m = length (filter (\<lambda>p. fst (W p) \<noteq> None) (concat bs)))"
proof (induction bs arbitrary: b c)
  case Nil
  show ?case by simp
next
  case (Cons bf rest)
  show ?case
  proof (cases "R (BatchTop b)")
    case False
    then have "filter is_progress (batch_loop_ml R C W N b (bf # rest) c)
        = map (\<lambda>i. ProgressUpdate (c + Suc i) N) [0..<0]"
      by (simp add: batch_loop_ml_stopped)
    moreover have "(\<forall>q. R q) \<longrightarrow> 0 = length (filter (\<lambda>p. fst (W p) \<noteq> None) (concat (bf # rest)))"
      using False by blast
    ultimately show ?thesis by blast
  next
    case True
    let ?ps = "arrange (C b) 0 bf"
    let ?d = "drain_ml R W N b 0 ?ps c"
    let ?n = "snd (snd ?d)"
    define k where "k = ?n - c"
    have cn: "c \<le> ?n" "?n \<le> c + length (filter (\<lambda>p. fst (W p) \<noteq> None) ?ps)"
      using drain_ml_count [where c = c and j = 0 and ps = ?ps and R = R and W = W and N = N
          and b = b] by simp_all
    then have n: "?n = c + k" by (simp add: k_def)
    have kl: "k \<le> length (filter (\<lambda>p. fst (W p) \<noteq> None) bf)"
      using cn by (simp add: k_def filter_arrange_length)
    from Cons [of "Suc b" "?n"] obtain m where
      m: "filter is_progress (batch_loop_ml R C W N (Suc b) rest ?n)
            = map (\<lambda>i. ProgressUpdate (?n + Suc i) N) [0..<m]"
         "m \<le> length (filter (\<lambda>p. fst (W p) \<noteq> None) (concat rest))"
         "(\<forall>q. R q) \<longrightarrow> m = length (filter (\<lambda>p. fst (W p) \<noteq> None) (concat rest))"
      by blast
    have "filter is_progress (batch_loop_ml R C W N b (bf # rest) c)
        = map (\<lambda>i. ProgressUpdate (c + Suc i) N) [0..<k]
          @ map (\<lambda>i. ProgressUpdate (c + Suc (k + i)) N) [0..<m]"
      unfolding batch_loop_ml_step [where R = R and b = b, OF True] filter_append
        report_ml_no_progress drain_ml_progress [where W = W, OF w] m(1)
      by (simp add: k_def [symmetric] n)
    also have "\<dots> = map (\<lambda>i. ProgressUpdate (c + Suc i) N) [0..<k + m]"
      by (rule map_upt_append [where f = "\<lambda>i. ProgressUpdate (c + Suc i) N"])
    finally have one: "filter is_progress (batch_loop_ml R C W N b (bf # rest) c)
        = map (\<lambda>i. ProgressUpdate (c + Suc i) N) [0..<k + m]" .
    have two: "k + m \<le> length (filter (\<lambda>p. fst (W p) \<noteq> None) (concat (bf # rest)))"
      using kl m(2) by simp
    have three: "k + m = length (filter (\<lambda>p. fst (W p) \<noteq> None) (concat (bf # rest)))"
      if all: "\<forall>q. R q"
    proof -
      from all have a: "\<And>q. R q" by blast
      have "?n = c + length (filter (\<lambda>p. fst (W p) \<noteq> None) ?ps)"
        using a by (rule drain_ml_running(2))
      then have "k = length (filter (\<lambda>p. fst (W p) \<noteq> None) bf)"
        by (simp add: k_def filter_arrange_length)
      with m(3) all show ?thesis by simp
    qed
    from one two three show ?thesis by blast
  qed
qed

lemma batch_loop_ml_events:
  assumes "ev \<in> set (batch_loop_ml R C W N b bs c)"
  shows "(\<exists>k p. k < length bs \<and> (\<forall>i \<le> k. R (BatchTop (b + i))) \<and> p \<in> set (bs ! k)
            \<and> ev \<in> set (snd (W p)))
       \<or> (\<exists>k p p' cl conf out. k < length bs \<and> (\<forall>i \<le> k. R (BatchTop (b + i)))
            \<and> p \<in> set (bs ! k) \<and> fst (W p) = Some (p', cl, conf, out)
            \<and> ev = ResultUpdate p' cl (format_2f conf))
       \<or> (\<exists>n. ev = ProgressUpdate n N)"
  using assms
proof (induction bs arbitrary: b c)
  case Nil
  then show ?case by simp
next
  case (Cons bf rest)
  show ?case
  proof (cases "R (BatchTop b)")
    case False
    with Cons.prems show ?thesis by (simp add: batch_loop_ml_stopped)
  next
    case True
    let ?ps = "arrange (C b) 0 bf"
    let ?d = "drain_ml R W N b 0 ?ps c"
    have "ev \<in> set (fst (snd ?d)) \<union> set (report_ml R b 0 (fst ?d))
        \<union> set (batch_loop_ml R C W N (Suc b) rest (snd (snd ?d)))"
      using Cons.prems unfolding batch_loop_ml_step [where R = R and b = b, OF True]
      by (simp only: set_append Un_assoc)
    then consider
        (d) "ev \<in> set (fst (snd ?d))"
      | (r) "ev \<in> set (report_ml R b 0 (fst ?d))"
      | (l) "ev \<in> set (batch_loop_ml R C W N (Suc b) rest (snd (snd ?d)))"
      by blast
    then show ?thesis
    proof cases
      case d
      have "(\<exists>p \<in> set bf. ev \<in> set (snd (W p))) \<or> (\<exists>n. ev = ProgressUpdate n N)"
        using drain_ml_events [OF d] by (simp only: set_arrange)
      then consider
          (work) p where "p \<in> set bf" "ev \<in> set (snd (W p))"
        | (prog) n where "ev = ProgressUpdate n N" by blast
      then show ?thesis
      proof cases
        case work
        have "0 < length (bf # rest) \<and> (\<forall>i \<le> 0. R (BatchTop (b + i)))
            \<and> p \<in> set ((bf # rest) ! 0) \<and> ev \<in> set (snd (W p))"
          using True work by simp
        then have "\<exists>k p. k < length (bf # rest) \<and> (\<forall>i \<le> k. R (BatchTop (b + i)))
            \<and> p \<in> set ((bf # rest) ! k) \<and> ev \<in> set (snd (W p))"
          by (intro exI)
        then show ?thesis by (rule disjI1)
      next
        case prog
        then show ?thesis by blast
      qed
    next
      case r
      from report_ml_events [OF r] obtain p' cl conf out where res:
        "(p', cl, conf, out) \<in> set (fst ?d)" "ev = ResultUpdate p' cl (format_2f conf)" by blast
      have "\<exists>p \<in> set bf. fst (W p) = Some (p', cl, conf, out)"
        using drain_ml_results [OF res(1)] by (simp only: set_arrange)
      then obtain p where "p \<in> set bf" "fst (W p) = Some (p', cl, conf, out)" by blast
      with True res(2) have "0 < length (bf # rest) \<and> (\<forall>i \<le> 0. R (BatchTop (b + i)))
          \<and> p \<in> set ((bf # rest) ! 0) \<and> fst (W p) = Some (p', cl, conf, out)
          \<and> ev = ResultUpdate p' cl (format_2f conf)" by simp
      then show ?thesis by blast
    next
      case l
      have up: "\<forall>i \<le> Suc k. R (BatchTop (b + i))" if "\<forall>i \<le> k. R (BatchTop (Suc b + i))" for k
      proof (intro allI impI)
        fix i assume "i \<le> Suc k"
        show "R (BatchTop (b + i))"
        proof (cases i)
          case 0
          with True show ?thesis by simp
        next
          case (Suc i')
          with \<open>i \<le> Suc k\<close> that show ?thesis by simp
        qed
      qed
      from Cons.IH [OF l] consider
          (work) k p where "k < length rest" "\<forall>i \<le> k. R (BatchTop (Suc b + i))"
             "p \<in> set (rest ! k)" "ev \<in> set (snd (W p))"
        | (res) k p p' cl conf out where "k < length rest" "\<forall>i \<le> k. R (BatchTop (Suc b + i))"
             "p \<in> set (rest ! k)" "fst (W p) = Some (p', cl, conf, out)"
             "ev = ResultUpdate p' cl (format_2f conf)"
        | (prog) n where "ev = ProgressUpdate n N" by blast
      then show ?thesis
      proof cases
        case work
        then have "Suc k < length (bf # rest) \<and> (\<forall>i \<le> Suc k. R (BatchTop (b + i)))
          \<and> p \<in> set ((bf # rest) ! Suc k) \<and> ev \<in> set (snd (W p))"
          using up [of k] by simp
        then show ?thesis by blast
      next
        case res
        then have "Suc k < length (bf # rest) \<and> (\<forall>i \<le> Suc k. R (BatchTop (b + i)))
          \<and> p \<in> set ((bf # rest) ! Suc k) \<and> fst (W p) = Some (p', cl, conf, out)
          \<and> ev = ResultUpdate p' cl (format_2f conf)"
          using up [of k] by simp
        then show ?thesis by blast
      next
        case prog
        then show ?thesis by blast
      qed
    qed
  qed
qed

lemma batch_loop_ml_running_complete:
  assumes "\<And>q. R q" "p \<in> set (concat bs)"
  shows "(\<forall>ev \<in> set (snd (W p)). ev \<in> set (batch_loop_ml R C W N b bs c))
       \<and> (\<forall>p' cl conf out. fst (W p) = Some (p', cl, conf, out) \<longrightarrow>
            ResultUpdate p' cl (format_2f conf) \<in> set (batch_loop_ml R C W N b bs c))"
  using assms(2)
proof (induction bs arbitrary: b c)
  case Nil
  then show ?case by simp
next
  case (Cons bf rest)
  let ?ps = "arrange (C b) 0 bf"
  let ?d = "drain_ml R W N b 0 ?ps c"
  have step: "batch_loop_ml R C W N b (bf # rest) c =
     fst (snd ?d) @ report_ml R b 0 (fst ?d) @ batch_loop_ml R C W N (Suc b) rest (snd (snd ?d))"
    using assms(1) [of "BatchTop b"] by (rule batch_loop_ml_step [where R = R and b = b])
  from Cons.prems consider "p \<in> set bf" | "p \<in> set (concat rest)" by auto
  then show ?case
  proof cases
    case 1
    then have in_ps: "p \<in> set ?ps" by (simp add: set_arrange)
    have err: "ev \<in> set (fst (snd ?d))" if "ev \<in> set (snd (W p))" for ev
      using in_ps that by (rule drain_ml_worker_events)
    have res: "ResultUpdate p' cl (format_2f conf) \<in> set (report_ml R b 0 (fst ?d))"
      if w: "fst (W p) = Some (p', cl, conf, out)" for p' cl conf out
    proof -
      have "(p', cl, conf, out) \<in> set (fst ?d)"
        using w in_ps
        by (auto simp: drain_ml_running(1) [OF assms(1)] image_iff intro!: bexI [of _ p])
      with assms(1) show ?thesis by (rule report_ml_running)
    qed
    from err res show ?thesis unfolding step by auto
  next
    case 2
    from Cons.IH [OF 2, of "Suc b" "snd (snd ?d)"] show ?thesis unfolding step by auto
  qed
qed

subsection \<open>The whole run\<close>

lemma range_down_empty: "0 \<le> stop \<Longrightarrow> range_down 0 stop step = []"
  by (simp add: range_down.simps [of 0])

lemma batches_cases:
  assumes "batches xs B = Inr bs"
  shows "(0 < B \<and> concat bs = xs) \<or> (B < 0 \<and> bs = [])"
proof -
  from assms have nz: "B \<noteq> 0" by (auto simp: batches_def py_range_def)
  show ?thesis
  proof (cases "0 < B")
    case True
    have b0: "0 < nat B" using True by simp
    have cover: "length xs \<le> nat \<lceil>real (length xs) / real_of_int B\<rceil> * nat B"
      using ceil_mult_bounds(1) [OF True, where N = "length xs"] .
    from batches_eq [OF True, of xs] assms
    have "bs = map (\<lambda>k. take (nat B) (drop (k * nat B) xs))
                 [0..<nat \<lceil>real (length xs) / real_of_int B\<rceil>]" by simp
    then have "concat bs = xs" using concat_chunks [OF b0 cover] by simp
    with True show ?thesis by simp
  next
    case False
    with nz have neg: "B < 0" by simp
    with assms have "bs = []"
      by (simp add: batches_def py_range_def range_down_empty)
    with neg show ?thesis by simp
  qed
qed

lemma run_setup_facts:
  assumes "run_setup w job = Inr (model, labels, image_files, bs)"
  shows "image_files = discover w (input_folders job)"
    and "batches image_files (batch_size job) = Inr bs"
  using assms
  by (auto simp: run_setup_def Let_def split: sum.splits option.splits)

lemma run_setup_batches:
  assumes "run_setup w job = Inr (model, labels, image_files, bs)"
  shows "distinct (concat bs)" and "0 < batch_size job \<Longrightarrow> concat bs = image_files"
proof -
  note f = run_setup_facts [OF assms]
  from batches_cases [OF f(2)] show "distinct (concat bs)"
    using distinct_discover [of w "input_folders job"] f(1) by auto
  assume "0 < batch_size job"
  with batches_cases [OF f(2)] show "concat bs = image_files" by auto
qed

lemma run_setup_failures:
  shows "fst (load_model_safely (tf_load_model w) (model_path job)) = Inl e
           \<Longrightarrow> run_setup w job = Inl e"
    and "fst (load_model_safely (tf_load_model w) (model_path job)) = Inr model
           \<Longrightarrow> readlines w (label_path job) = Inl e \<Longrightarrow> run_setup w job = Inl e"
  by (simp_all add: run_setup_def)

lemma work_own_path:
  assumes "fst (process_image w out p model labels) = Inr (p', cl, conf, out')"
  shows "p' = p"
proof -
  obtain effs where "process_image w out p model labels = (Inr (p', cl, conf, out'), effs)"
    using assms by (cases "process_image w out p model labels") auto
  from process_image_saves_original [OF this] show ?thesis by auto
qed

lemma ex_str: "\<exists>e. s = str e"
  by (rule exI [of _ "Exception s"]) simp

lemma process_image_ml_shape:
  assumes "process_image_ml w out p model labels = (r, evs, files)"
  shows "(r = None \<and> (\<exists>e. evs = [Error (''Error processing '' @ p @ '': '' @ str e)]) \<and> files = [])
       \<or> (\<exists>cl conf out'. r = Some (p, cl, conf, out') \<and> evs = [])"
  using assms
  by (auto simp: process_image_ml_def Let_def ex_str split: sum.splits if_splits option.splits)

text \<open>The worker of \<open>ml.py\<close> as the loop sees it: the value returned and the signals.\<close>

lemma work_ml_shape:
  fixes w :: "'m imaging"
  defines "W \<equiv> \<lambda>out model labels p.
     (let (r, evs, files) = process_image_ml w out p model labels in (r, evs))"
  shows "(fst (W out model labels p) = None
           \<and> (\<exists>e. snd (W out model labels p) = [Error (''Error processing '' @ p @ '': '' @ str e)]))
       \<or> (\<exists>cl conf out'. fst (W out model labels p) = Some (p, cl, conf, out')
           \<and> snd (W out model labels p) = [])"
proof -
  obtain r evs files where pi: "process_image_ml w out p model labels = (r, evs, files)"
    by (cases "process_image_ml w out p model labels") auto
  from process_image_ml_shape [OF pi] show ?thesis by (auto simp: W_def pi)
qed

lemma finished_count_append_Finished:
  "Finished \<notin> set evs \<Longrightarrow> finished_count (evs @ [Finished]) = 1"
  by (induction evs) (auto simp: finished_count_def)

lemma batch_loop_no_finished: "Finished \<notin> set (batch_loop R C W N b bs c)"
proof
  assume "Finished \<in> set (batch_loop R C W N b bs c)"
  from batch_loop_events [OF this] show False by auto
qed

lemma batch_loop_ml_no_finished:
  assumes "\<And>p. Finished \<notin> set (snd (W p))"
  shows "Finished \<notin> set (batch_loop_ml R C W N b bs c)"
proof
  assume "Finished \<in> set (batch_loop_ml R C W N b bs c)"
  from batch_loop_ml_events [OF this] assms show False by auto
qed

lemma run_cases:
  obtains (failed) e where "run_setup w job = Inl e"
      "run w job = [Error (''Error in classification setup: '' @ str e), Finished]"
      "run_ml w job = [Error (''Error in classification process: '' @ str e), Finished]"
  | (looped) model labels image_files bs where
      "run_setup w job = Inr (model, labels, image_files, bs)"
      "run w job =
         batch_loop (is_running w) (completion_order w)
           (\<lambda>p. fst (process_image (imaging.truncate w) (output_folder job) p model labels))
           (length image_files) 0 bs 0 @ [Finished]"
      "run_ml w job =
         batch_loop_ml (is_running w) (completion_order w)
           (\<lambda>p. (let (r, evs, files) =
                        process_image_ml (imaging.truncate w) (output_folder job) p model labels
                  in (r, evs)))
           (length image_files) 0 bs 0 @ [Finished]"
proof (cases "run_setup w job")
  case (Inl e)
  then show ?thesis using failed by (simp add: run_def run_ml_def)
next
  case (Inr t)
  obtain model labels image_files bs where "t = (model, labels, image_files, bs)"
    by (cases t) auto
  with Inr show ?thesis using looped by (simp add: run_def run_ml_def)
qed

lemma work_ml_no_finished:
  "Finished \<notin> set (snd (let (r, evs, files) = process_image_ml w out p model labels in (r, evs)))"
  using work_ml_shape [of w out p model labels] by auto

lemma work_ml_no_progress:
  "filter is_progress
     (snd (let (r, evs, files) = process_image_ml w out p model labels in (r, evs))) = []"
  using work_ml_shape [of w out p model labels] by auto

lemma run_ends_finished:
  "finished_count (run w job) = 1" "last (run w job) = Finished"
  "finished_count (run_ml w job) = 1" "last (run_ml w job) = Finished"
proof -
  have "finished_count (run w job) = 1 \<and> last (run w job) = Finished
      \<and> finished_count (run_ml w job) = 1 \<and> last (run_ml w job) = Finished"
  proof (cases rule: run_cases [of w job])
    case (failed e)
    then show ?thesis by (simp add: finished_count_def)
  next
    case (looped model labels image_files bs)
    have "finished_count (run w job) = 1"
      unfolding looped(2) by (intro finished_count_append_Finished batch_loop_no_finished)
    moreover have "finished_count (run_ml w job) = 1"
      unfolding looped(3)
      by (intro finished_count_append_Finished batch_loop_ml_no_finished work_ml_no_finished)
    ultimately show ?thesis by (simp add: looped(2,3))
  qed
  then show "finished_count (run w job) = 1" "last (run w job) = Finished"
    "finished_count (run_ml w job) = 1" "last (run_ml w job) = Finished" by simp_all
qed

text \<open>
  Claim C3. Every run emits \<open>finished\<close> exactly once, as its last signal: after the
  loop over the batches, whether the loop ran to its end or was stopped, and, when the
  model load or the reading of the labels raises, after the single \<open>error\<close> emission
  that reports the exception. Both copies of \<open>run\<close> do.
\<close>

theorem run_finished_once:
  "finished_count (run w job) = 1 \<and> last (run w job) = Finished
   \<and> finished_count (run_ml w job) = 1 \<and> last (run_ml w job) = Finished
   \<and> (\<forall>e. fst (load_model_safely (tf_load_model w) (model_path job)) = Inl e \<longrightarrow>
         run w job = [Error (''Error in classification setup: '' @ str e), Finished]
       \<and> run_ml w job = [Error (''Error in classification process: '' @ str e), Finished])
   \<and> (\<forall>model e. fst (load_model_safely (tf_load_model w) (model_path job)) = Inr model
                 \<and> readlines w (label_path job) = Inl e \<longrightarrow>
         run w job = [Error (''Error in classification setup: '' @ str e), Finished]
       \<and> run_ml w job = [Error (''Error in classification process: '' @ str e), Finished])"
proof -
  have fail: "run w job = [Error (''Error in classification setup: '' @ str e), Finished]
       \<and> run_ml w job = [Error (''Error in classification process: '' @ str e), Finished]"
    if "run_setup w job = Inl e" for e
    using that by (simp add: run_def run_ml_def)
  have one: "\<forall>e. fst (load_model_safely (tf_load_model w) (model_path job)) = Inl e \<longrightarrow>
         run w job = [Error (''Error in classification setup: '' @ str e), Finished]
       \<and> run_ml w job = [Error (''Error in classification process: '' @ str e), Finished]"
  proof (intro allI impI)
    fix e
    assume "fst (load_model_safely (tf_load_model w) (model_path job)) = Inl e"
    then have "run_setup w job = Inl e" by (rule run_setup_failures(1))
    then show "run w job = [Error (''Error in classification setup: '' @ str e), Finished]
       \<and> run_ml w job = [Error (''Error in classification process: '' @ str e), Finished]"
      by (rule fail)
  qed
  have two: "\<forall>model e. fst (load_model_safely (tf_load_model w) (model_path job)) = Inr model
                 \<and> readlines w (label_path job) = Inl e \<longrightarrow>
         run w job = [Error (''Error in classification setup: '' @ str e), Finished]
       \<and> run_ml w job = [Error (''Error in classification process: '' @ str e), Finished]"
  proof (intro allI impI)
    fix model e
    assume "fst (load_model_safely (tf_load_model w) (model_path job)) = Inr model
                 \<and> readlines w (label_path job) = Inl e"
    then have "run_setup w job = Inl e" using run_setup_failures(2) [of w job model e] by simp
    then show "run w job = [Error (''Error in classification setup: '' @ str e), Finished]
       \<and> run_ml w job = [Error (''Error in classification process: '' @ str e), Finished]"
      by (rule fail)
  qed
  show ?thesis
  proof (intro conjI)
    show "finished_count (run w job) = 1" by (rule run_ends_finished(1))
    show "last (run w job) = Finished" by (rule run_ends_finished(2))
    show "finished_count (run_ml w job) = 1" by (rule run_ends_finished(3))
    show "last (run_ml w job) = Finished" by (rule run_ends_finished(4))
    show "\<forall>e. fst (load_model_safely (tf_load_model w) (model_path job)) = Inl e \<longrightarrow>
         run w job = [Error (''Error in classification setup: '' @ str e), Finished]
       \<and> run_ml w job = [Error (''Error in classification process: '' @ str e), Finished]"
      by (rule one)
    show "\<forall>model e. fst (load_model_safely (tf_load_model w) (model_path job)) = Inr model
                 \<and> readlines w (label_path job) = Inl e \<longrightarrow>
         run w job = [Error (''Error in classification setup: '' @ str e), Finished]
       \<and> run_ml w job = [Error (''Error in classification process: '' @ str e), Finished]"
      by (rule two)
  qed
qed

lemmas eval_run =
  run_def run_ml_def run_setup_def load_model_safely_def discover_def arrange.simps batches_def
  py_range_def range_up.simps py_slice_def py_strip_def is_space_def process_image_def
  process_image_ml_def resize_def np_argmax_def path_join_def basename_def format_2f_def rne_def
  dec_digits.simps char_of_def bit_0 imaging.truncate_def example_world_def example_job_def
  Let_def finished_count_def

theorem run_finished_once_witness:
  "fst (load_model_safely
          (tf_load_model (example_world\<lparr>tf_load_model :=
             (\<lambda>p objs. Inl (Exception ''No file or directory found at model.h5''))\<rparr>))
          (model_path example_job))
     = Inl (Exception ''No file or directory found at model.h5'')
   \<and> run (example_world\<lparr>tf_load_model :=
             (\<lambda>p objs. Inl (Exception ''No file or directory found at model.h5''))\<rparr>)
        example_job
     = [Error ''Error in classification setup: No file or directory found at model.h5'',
        Finished]
   \<and> run example_world example_job
     = [Error ''Error processing b.jpg: cannot identify image file'',
        ResultUpdate ''in/a.jpg'' ''cat'' ''0.88'', ProgressUpdate 1 3,
        ResultUpdate ''in/c.jpg'' ''cat'' ''0.88'', ProgressUpdate 2 3, Finished]
   \<and> finished_count (run example_world example_job) = 1"
proof -
  let ?w = "example_world\<lparr>tf_load_model :=
             (\<lambda>p objs. Inl (Exception ''No file or directory found at model.h5''))\<rparr>"
  have h: "fst (load_model_safely (tf_load_model ?w) (model_path example_job))
     = Inl (Exception ''No file or directory found at model.h5'')"
    by (simp add: load_model_safely_def example_world_def example_job_def)
  from run_finished_once [of ?w example_job] h
  have r: "run ?w example_job
     = [Error ''Error in classification setup: No file or directory found at model.h5'',
        Finished]" by simp
  have v: "run example_world example_job
     = [Error ''Error processing b.jpg: cannot identify image file'',
        ResultUpdate ''in/a.jpg'' ''cat'' ''0.88'', ProgressUpdate 1 3,
        ResultUpdate ''in/c.jpg'' ''cat'' ''0.88'', ProgressUpdate 2 3, Finished]"
    by (simp add: eval_run)
  from run_finished_once [of example_world example_job]
  have c: "finished_count (run example_world example_job) = 1" by (rule conjunct1)
  from h r v c show ?thesis by (intro conjI)
qed

subsection \<open>Stopping\<close>

lemma earlier_batch_disjoint:
  assumes "distinct (concat bs)" "k < j" "k < length bs" "p \<in> set (bs ! k)"
  shows "p \<notin> set (concat (drop j bs))"
proof -
  have "concat bs = concat (take j bs) @ concat (drop j bs)"
    by (metis append_take_drop_id concat_append)
  with assms(1) have disj: "set (concat (take j bs)) \<inter> set (concat (drop j bs)) = {}"
    by (metis distinct_append)
  have "bs ! k \<in> set (take j bs)"
    using assms(2,3) by (metis in_set_conv_nth length_take min_less_iff_conj nth_take)
  with assms(4) have "p \<in> set (concat (take j bs))" by auto
  with disj show ?thesis by blast
qed

lemma is_result_for_iff: "is_result_for p ev \<longleftrightarrow> (\<exists>cl s. ev = ResultUpdate p cl s)"
  by (cases ev) auto

lemma batch_loop_no_result_after_stop:
  assumes d: "distinct (concat bs)" and stop: "\<not> R (BatchTop j)"
    and own: "\<And>q p' cl conf out. W q = Inr (p', cl, conf, out) \<Longrightarrow> p' = q"
    and p: "p \<in> set (concat (drop j bs))"
  shows "\<not> list_ex (is_result_for p) (batch_loop R C W N 0 bs c)"
proof
  assume "list_ex (is_result_for p) (batch_loop R C W N 0 bs c)"
  then obtain ev where ev: "ev \<in> set (batch_loop R C W N 0 bs c)" "is_result_for p ev"
    by (auto simp: list_ex_iff)
  from ev(2) obtain cl s where r: "ev = ResultUpdate p cl s" by (auto simp: is_result_for_iff)
  from batch_loop_events [OF ev(1)] r obtain k q p' cl' conf out where
    k: "k < length bs" "\<forall>i \<le> k. R (BatchTop (0 + i))" "q \<in> set (bs ! k)"
       "W q = Inr (p', cl', conf, out)" "ResultUpdate p cl s = ResultUpdate p' cl' (format_2f conf)"
    by auto
  from own [OF k(4)] k(5) have "q = p" by simp
  have "k < j"
  proof (rule ccontr)
    assume "\<not> k < j"
    then have "j \<le> k" by simp
    with k(2) have "R (BatchTop j)" by auto
    with stop show False by simp
  qed
  from earlier_batch_disjoint [OF d this k(1)] k(3) \<open>q = p\<close> p show False by simp
qed

lemma batch_loop_ml_no_result_after_stop:
  assumes d: "distinct (concat bs)" and stop: "\<not> R (BatchTop j)"
    and own: "\<And>q p' cl conf out. fst (W q) = Some (p', cl, conf, out) \<Longrightarrow> p' = q"
    and quiet: "\<And>q ev. ev \<in> set (snd (W q)) \<Longrightarrow> \<not> is_result_for p ev"
    and p: "p \<in> set (concat (drop j bs))"
  shows "\<not> list_ex (is_result_for p) (batch_loop_ml R C W N 0 bs c)"
proof
  assume "list_ex (is_result_for p) (batch_loop_ml R C W N 0 bs c)"
  then obtain ev where ev: "ev \<in> set (batch_loop_ml R C W N 0 bs c)" "is_result_for p ev"
    by (auto simp: list_ex_iff)
  from ev(2) obtain cl s where r: "ev = ResultUpdate p cl s" by (auto simp: is_result_for_iff)
  from batch_loop_ml_events [OF ev(1)] consider
      (work) k q where "q \<in> set (bs ! k)" "ev \<in> set (snd (W q))"
    | (res) k q p' cl' conf out where "k < length bs" "\<forall>i \<le> k. R (BatchTop (0 + i))"
        "q \<in> set (bs ! k)" "fst (W q) = Some (p', cl', conf, out)"
        "ev = ResultUpdate p' cl' (format_2f conf)"
    | (prog) n where "ev = ProgressUpdate n N"
    by metis
  then show False
  proof cases
    case work
    from quiet [OF work(2)] ev(2) show False by simp
  next
    case res
    from own [OF res(4)] res(5) r have "q = p" by simp
    have "k < j"
    proof (rule ccontr)
      assume "\<not> k < j"
      then have "j \<le> k" by simp
      with res(2) have "R (BatchTop j)" by auto
      with stop show False by simp
    qed
    from earlier_batch_disjoint [OF d this res(1)] res(3) \<open>q = p\<close> p show False by simp
  next
    case prog
    with r show False by simp
  qed
qed

lemma work_ml_own_path:
  assumes "fst (let (r, evs, files) = process_image_ml w out q model labels in (r, evs))
             = Some (p', cl, conf, out')"
  shows "p' = q"
  using work_ml_shape [of w out q model labels] assms by auto

lemma work_ml_no_result:
  assumes "ev \<in> set (snd (let (r, evs, files) = process_image_ml w out q model labels in (r, evs)))"
  shows "\<not> is_result_for p ev"
  using work_ml_shape [of w out q model labels] assms by auto

text \<open>
  Claim C4. When the flag reads false at the top of the loop for batch \<open>k + 1\<close>, as it
  does when \<open>stop()\<close> was called after batch \<open>k\<close> was drained and before batch
  \<open>k + 1\<close> began, no \<open>result_update\<close> is emitted for any image of batch \<open>k + 1\<close> or
  of a later batch, and the run still emits \<open>finished\<close> exactly once. Both copies of
  \<open>run\<close> behave so.
\<close>

theorem stop_before_batch_no_results:
  assumes "run_setup w job = Inr (model, labels, image_files, bs)"
    and "\<not> is_running w (BatchTop (Suc k))"
    and "p \<in> set (concat (drop (Suc k) bs))"
  shows "\<not> list_ex (is_result_for p) (run w job)
       \<and> \<not> list_ex (is_result_for p) (run_ml w job)
       \<and> finished_count (run w job) = 1 \<and> finished_count (run_ml w job) = 1"
proof -
  note d = run_setup_batches(1) [OF assms(1)]
  have r1: "run w job =
         batch_loop (is_running w) (completion_order w)
           (\<lambda>p. fst (process_image (imaging.truncate w) (output_folder job) p model labels))
           (length image_files) 0 bs 0 @ [Finished]"
    using assms(1) by (simp add: run_def)
  have r2: "run_ml w job =
         batch_loop_ml (is_running w) (completion_order w)
           (\<lambda>p. (let (r, evs, files) =
                        process_image_ml (imaging.truncate w) (output_folder job) p model labels
                  in (r, evs)))
           (length image_files) 0 bs 0 @ [Finished]"
    using assms(1) by (simp add: run_ml_def)
  have "\<not> list_ex (is_result_for p)
      (batch_loop (is_running w) (completion_order w)
           (\<lambda>p. fst (process_image (imaging.truncate w) (output_folder job) p model labels))
           (length image_files) 0 bs 0)"
  proof (rule batch_loop_no_result_after_stop [where j = "Suc k"])
    show "distinct (concat bs)" by (rule d)
    show "\<not> is_running w (BatchTop (Suc k))" by (rule assms(2))
    show "p \<in> set (concat (drop (Suc k) bs))" by (rule assms(3))
    show "p' = q"
      if "fst (process_image (imaging.truncate w) (output_folder job) q model labels)
            = Inr (p', cl, conf, out)" for q p' cl conf out
      using that by (rule work_own_path)
  qed
  then have "\<not> list_ex (is_result_for p) (run w job)"
    unfolding r1 by simp
  moreover have "\<not> list_ex (is_result_for p)
      (batch_loop_ml (is_running w) (completion_order w)
           (\<lambda>p. (let (r, evs, files) =
                        process_image_ml (imaging.truncate w) (output_folder job) p model labels
                  in (r, evs)))
           (length image_files) 0 bs 0)"
  proof (rule batch_loop_ml_no_result_after_stop [where j = "Suc k"])
    show "distinct (concat bs)" by (rule d)
    show "\<not> is_running w (BatchTop (Suc k))" by (rule assms(2))
    show "p \<in> set (concat (drop (Suc k) bs))" by (rule assms(3))
    show "p' = q"
      if "fst (let (r, evs, files) =
                 process_image_ml (imaging.truncate w) (output_folder job) q model labels
               in (r, evs)) = Some (p', cl, conf, out)" for q p' cl conf out
      using that by (rule work_ml_own_path)
    show "\<not> is_result_for p ev"
      if "ev \<in> set (snd (let (r, evs, files) =
                 process_image_ml (imaging.truncate w) (output_folder job) q model labels
               in (r, evs)))" for q ev
      using that by (rule work_ml_no_result)
  qed
  then have "\<not> list_ex (is_result_for p) (run_ml w job)"
    unfolding r2 by simp
  ultimately show ?thesis using run_ends_finished(1,3) [of w job] by simp
qed

theorem stop_before_batch_no_results_witness:
  "run_setup (example_world\<lparr>is_running := (\<lambda>q. q \<noteq> BatchTop 1)\<rparr>) example_job
     = Inr ((), [''dog'', ''cat''], [''in/a.jpg'', ''in/b.jpg'', ''in/c.jpg''],
            [[''in/a.jpg'', ''in/b.jpg''], [''in/c.jpg'']])
   \<and> \<not> is_running (example_world\<lparr>is_running := (\<lambda>q. q \<noteq> BatchTop 1)\<rparr>) (BatchTop (Suc 0))
   \<and> ''in/c.jpg'' \<in> set (concat (drop (Suc 0) [[''in/a.jpg'', ''in/b.jpg''], [''in/c.jpg'']]))
   \<and> \<not> list_ex (is_result_for ''in/c.jpg'')
         (run (example_world\<lparr>is_running := (\<lambda>q. q \<noteq> BatchTop 1)\<rparr>) example_job)
   \<and> \<not> list_ex (is_result_for ''in/c.jpg'')
         (run_ml (example_world\<lparr>is_running := (\<lambda>q. q \<noteq> BatchTop 1)\<rparr>) example_job)
   \<and> run (example_world\<lparr>is_running := (\<lambda>q. q \<noteq> BatchTop 1)\<rparr>) example_job
     = [Error ''Error processing b.jpg: cannot identify image file'',
        ResultUpdate ''in/a.jpg'' ''cat'' ''0.88'', ProgressUpdate 1 3, Finished]"
proof -
  let ?w = "example_world\<lparr>is_running := (\<lambda>q. q \<noteq> BatchTop 1)\<rparr>"
  have s: "run_setup ?w example_job
     = Inr ((), [''dog'', ''cat''], [''in/a.jpg'', ''in/b.jpg'', ''in/c.jpg''],
            [[''in/a.jpg'', ''in/b.jpg''], [''in/c.jpg'']])"
    by (simp add: eval_run)
  have h: "\<not> is_running ?w (BatchTop (Suc 0))" by simp
  have m: "''in/c.jpg'' \<in> set (concat (drop (Suc 0) [[''in/a.jpg'', ''in/b.jpg''], [''in/c.jpg'']]))"
    by simp
  note t = stop_before_batch_no_results [OF s h m]
  have v: "run ?w example_job
     = [Error ''Error processing b.jpg: cannot identify image file'',
        ResultUpdate ''in/a.jpg'' ''cat'' ''0.88'', ProgressUpdate 1 3, Finished]"
    by (simp add: eval_run)
  from t have t1: "\<not> list_ex (is_result_for ''in/c.jpg'') (run ?w example_job)"
    by (rule conjunct1)
  from t have t2: "\<not> list_ex (is_result_for ''in/c.jpg'') (run_ml ?w example_job)"
    by (elim conjE)
  from s h m t1 t2 v show ?thesis by (intro conjI)
qed

subsection \<open>Failures of single images\<close>

lemma setup_message_differs:
  "''Error in classification setup: '' @ msg \<noteq> ''Error processing '' @ x"
  "''Error in classification process: '' @ msg \<noteq> ''Error processing '' @ x"
  by simp_all

lemma batch_loop_no_setup_error:
  "Error (''Error in classification setup: '' @ msg) \<notin> set (batch_loop R C W N b bs c)"
proof
  assume a: "Error (''Error in classification setup: '' @ msg) \<in> set (batch_loop R C W N b bs c)"
  have "\<exists>x. ''Error in classification setup: '' @ msg = ''Error processing '' @ x"
    using batch_loop_events [OF a] by (elim disjE exE conjE) simp_all
  then show False using setup_message_differs(1) by simp
qed

lemma batch_loop_ml_no_setup_error:
  assumes "\<And>p ev. ev \<in> set (snd (W p)) \<Longrightarrow> \<exists>x. ev = Error (''Error processing '' @ x)"
  shows "Error (''Error in classification process: '' @ msg) \<notin> set (batch_loop_ml R C W N b bs c)"
proof
  assume a: "Error (''Error in classification process: '' @ msg)
      \<in> set (batch_loop_ml R C W N b bs c)"
  from batch_loop_ml_events [OF a] consider
      (work) p where "Error (''Error in classification process: '' @ msg) \<in> set (snd (W p))"
    | (other) "(\<exists>p' cl conf. Error (''Error in classification process: '' @ msg)
                   = ResultUpdate p' cl (format_2f conf))
             \<or> (\<exists>n. Error (''Error in classification process: '' @ msg) = ProgressUpdate n N)"
    by (elim disjE exE conjE) simp_all
  then show False
  proof cases
    case work
    from assms [OF work] show False using setup_message_differs(2) by simp
  next
    case other
    then show False by simp
  qed
qed

lemma work_ml_error_shape:
  assumes "ev \<in> set (snd (let (r, evs, files) = process_image_ml w out q model labels in (r, evs)))"
  shows "\<exists>x. ev = Error (''Error processing '' @ x)"
proof -
  from work_ml_shape [of w out q model labels] assms
  obtain e where "ev = Error (''Error processing '' @ q @ '': '' @ str e)"
    by (elim disjE exE conjE) simp_all
  then show ?thesis by (intro exI [of _ "q @ '': '' @ str e"]) simp
qed

lemma process_image_decode_failure:
  "image_open w p = Inl e \<Longrightarrow> fst (process_image w out p model labels) = Inl e"
  by (simp add: process_image_def)

lemma process_image_predict_failure:
  "image_open w p = Inr img \<Longrightarrow>
   predict w model (map (\<lambda>v. fl53 (real v / 255)) (img_pixels (resize w img (224, 224)))) = Inl e \<Longrightarrow>
   fst (process_image w out p model labels) = Inl e"
  by (simp add: process_image_def)

lemma process_image_argmax_failure:
  "image_open w p = Inr img \<Longrightarrow>
   predict w model (map (\<lambda>v. fl53 (real v / 255)) (img_pixels (resize w img (224, 224)))) = Inr preds \<Longrightarrow>
   np_argmax preds = Inl e \<Longrightarrow>
   fst (process_image w out p model labels) = Inl e"
  by (simp add: process_image_def)

lemma process_image_label_failure:
  "image_open w p = Inr img \<Longrightarrow>
   predict w model (map (\<lambda>v. fl53 (real v / 255)) (img_pixels (resize w img (224, 224)))) = Inr preds \<Longrightarrow>
   np_argmax preds = Inr idx \<Longrightarrow> length labels \<le> idx \<Longrightarrow>
   fst (process_image w out p model labels) = Inl (Exception ''list index out of range'')"
  by (simp add: process_image_def)

lemma process_image_save_failure:
  "image_open w p = Inr img \<Longrightarrow>
   predict w model (map (\<lambda>v. fl53 (real v / 255)) (img_pixels (resize w img (224, 224)))) = Inr preds \<Longrightarrow>
   np_argmax preds = Inr idx \<Longrightarrow> idx < length labels \<Longrightarrow>
   save_error w (path_join (path_join out (labels ! idx)) (basename p)) img = Some e \<Longrightarrow>
   fst (process_image w out p model labels) = Inl e"
  by (simp add: process_image_def Let_def)

lemma process_image_success:
  "image_open w p = Inr img \<Longrightarrow>
   predict w model (map (\<lambda>v. fl53 (real v / 255)) (img_pixels (resize w img (224, 224)))) = Inr preds \<Longrightarrow>
   np_argmax preds = Inr idx \<Longrightarrow> idx < length labels \<Longrightarrow>
   save_error w (path_join (path_join out (labels ! idx)) (basename p)) img = None \<Longrightarrow>
   fst (process_image w out p model labels)
     = Inr (p, labels ! idx, preds ! idx, path_join (path_join out (labels ! idx)) (basename p))"
  by (simp add: process_image_def Let_def)

lemma process_image_ml_decode_failure:
  "image_open w p = Inl e \<Longrightarrow>
   process_image_ml w out p model labels
     = (None, [Error (''Error processing '' @ p @ '': '' @ str e)], [])"
  by (simp add: process_image_ml_def)

lemma process_image_ml_predict_failure:
  "image_open w p = Inr img \<Longrightarrow>
   predict w model (map (\<lambda>v. fl53 (real v / 255)) (img_pixels (resize w img (224, 224)))) = Inl e \<Longrightarrow>
   process_image_ml w out p model labels
     = (None, [Error (''Error processing '' @ p @ '': '' @ str e)], [])"
  by (simp add: process_image_ml_def Let_def)

lemma process_image_ml_argmax_failure:
  "image_open w p = Inr img \<Longrightarrow>
   predict w model (map (\<lambda>v. fl53 (real v / 255)) (img_pixels (resize w img (224, 224)))) = Inr preds \<Longrightarrow>
   np_argmax preds = Inl e \<Longrightarrow>
   process_image_ml w out p model labels
     = (None, [Error (''Error processing '' @ p @ '': '' @ str e)], [])"
  by (simp add: process_image_ml_def Let_def)

lemma process_image_ml_label_failure:
  "image_open w p = Inr img \<Longrightarrow>
   predict w model (map (\<lambda>v. fl53 (real v / 255)) (img_pixels (resize w img (224, 224)))) = Inr preds \<Longrightarrow>
   np_argmax preds = Inr idx \<Longrightarrow> length labels \<le> idx \<Longrightarrow>
   process_image_ml w out p model labels
     = (None, [Error (''Error processing '' @ p @ '': '' @ str (Exception ''list index out of range''))], [])"
  by (simp add: process_image_ml_def Let_def)

lemma process_image_ml_save_failure:
  "image_open w p = Inr img \<Longrightarrow>
   predict w model (map (\<lambda>v. fl53 (real v / 255)) (img_pixels (resize w img (224, 224)))) = Inr preds \<Longrightarrow>
   np_argmax preds = Inr idx \<Longrightarrow> idx < length labels \<Longrightarrow>
   save_error w (path_join (path_join out (labels ! idx)) (basename p)) (resize w img (224, 224))
     = Some e \<Longrightarrow>
   process_image_ml w out p model labels
     = (None, [Error (''Error processing '' @ p @ '': '' @ str e)], [])"
  by (simp add: process_image_ml_def Let_def)

lemma process_image_ml_success:
  "image_open w p = Inr img \<Longrightarrow>
   predict w model (map (\<lambda>v. fl53 (real v / 255)) (img_pixels (resize w img (224, 224)))) = Inr preds \<Longrightarrow>
   np_argmax preds = Inr idx \<Longrightarrow> idx < length labels \<Longrightarrow>
   save_error w (path_join (path_join out (labels ! idx)) (basename p)) (resize w img (224, 224))
     = None \<Longrightarrow>
   process_image_ml w out p model labels
     = (Some (p, labels ! idx, preds ! idx, path_join (path_join out (labels ! idx)) (basename p)),
        [], [SaveImage (path_join (path_join out (labels ! idx)) (basename p))
               (resize w img (224, 224))])"
  by (simp add: process_image_ml_def Let_def)

lemma truncate_fields:
  "image_open (imaging.truncate w) = image_open w"
  "predict (imaging.truncate w) = predict w"
  "save_error (imaging.truncate w) = save_error w"
  by (simp_all add: imaging.truncate_def)

lemma run_reports:
  assumes "run_setup w job = Inr (model, labels, image_files, bs)"
    and "0 < batch_size job"
    and "\<forall>q. is_running w q"
    and "p \<in> set image_files"
  shows "fst (process_image (imaging.truncate w) (output_folder job) p model labels) = Inl e
           \<Longrightarrow> Error (''Error processing '' @ basename p @ '': '' @ str e) \<in> set (run w job)"
    and "fst (process_image (imaging.truncate w) (output_folder job) p model labels)
           = Inr (p', cl, conf, out)
           \<Longrightarrow> ResultUpdate p' cl (format_2f conf) \<in> set (run w job)"
proof -
  let ?W = "\<lambda>p. fst (process_image (imaging.truncate w) (output_folder job) p model labels)"
  let ?loop = "batch_loop (is_running w) (completion_order w) ?W (length image_files) 0 bs 0"
  have r1: "run w job = ?loop @ [Finished]" using assms(1) by (simp add: run_def)
  from assms(3) have running: "\<And>q. is_running w q" by simp
  have p: "p \<in> set (concat bs)" using run_setup_batches(2) [OF assms(1,2)] assms(4) by simp
  note c1 = batch_loop_running_complete
    [where R = "is_running w" and W = ?W and C = "completion_order w"
       and N = "length image_files" and b = 0 and c = 0, OF running p]
  show "Error (''Error processing '' @ basename p @ '': '' @ str e) \<in> set (run w job)"
    if "?W p = Inl e"
    using c1 that unfolding r1 by simp
  show "ResultUpdate p' cl (format_2f conf) \<in> set (run w job)"
    if "?W p = Inr (p', cl, conf, out)"
    using c1 that unfolding r1 by simp
qed

lemma run_ml_reports:
  assumes "run_setup w job = Inr (model, labels, image_files, bs)"
    and "0 < batch_size job"
    and "\<forall>q. is_running w q"
    and "p \<in> set image_files"
  shows "process_image_ml (imaging.truncate w) (output_folder job) p model labels
           = (None, [ev], files)
           \<Longrightarrow> ev \<in> set (run_ml w job)"
    and "process_image_ml (imaging.truncate w) (output_folder job) p model labels
           = (Some (p', cl, conf, out), evs, files)
           \<Longrightarrow> ResultUpdate p' cl (format_2f conf) \<in> set (run_ml w job)"
proof -
  let ?Wm = "\<lambda>p. (let (r, evs, files) =
                        process_image_ml (imaging.truncate w) (output_folder job) p model labels
                  in (r, evs))"
  let ?loop_ml = "batch_loop_ml (is_running w) (completion_order w) ?Wm (length image_files) 0 bs 0"
  have r2: "run_ml w job = ?loop_ml @ [Finished]" using assms(1) by (simp add: run_ml_def)
  from assms(3) have running: "\<And>q. is_running w q" by simp
  have p: "p \<in> set (concat bs)" using run_setup_batches(2) [OF assms(1,2)] assms(4) by simp
  note c2 = batch_loop_ml_running_complete
    [where R = "is_running w" and W = ?Wm and C = "completion_order w"
       and N = "length image_files" and b = 0 and c = 0, OF running p]
  show "ev \<in> set (run_ml w job)"
    if pi: "process_image_ml (imaging.truncate w) (output_folder job) p model labels
           = (None, [ev], files)"
  proof -
    have "snd (?Wm p) = [ev]" by (simp add: pi)
    with c2 have "ev \<in> set ?loop_ml" by simp
    then show ?thesis unfolding r2 by simp
  qed
  show "ResultUpdate p' cl (format_2f conf) \<in> set (run_ml w job)"
    if pi: "process_image_ml (imaging.truncate w) (output_folder job) p model labels
           = (Some (p', cl, conf, out), evs, files)"
  proof -
    have "fst (?Wm p) = Some (p', cl, conf, out)" by (simp add: pi)
    with c2 have "ResultUpdate p' cl (format_2f conf) \<in> set ?loop_ml" by simp
    then show ?thesis unfolding r2 by simp
  qed
qed

lemma run_no_setup_error:
  assumes "run_setup w job = Inr (model, labels, image_files, bs)"
  shows "Error (''Error in classification setup: '' @ msg) \<notin> set (run w job)"
    and "Error (''Error in classification process: '' @ msg) \<notin> set (run_ml w job)"
proof -
  let ?W = "\<lambda>p. fst (process_image (imaging.truncate w) (output_folder job) p model labels)"
  let ?Wm = "\<lambda>p. (let (r, evs, files) =
                        process_image_ml (imaging.truncate w) (output_folder job) p model labels
                  in (r, evs))"
  let ?loop = "batch_loop (is_running w) (completion_order w) ?W (length image_files) 0 bs 0"
  let ?loop_ml = "batch_loop_ml (is_running w) (completion_order w) ?Wm (length image_files) 0 bs 0"
  have r1: "run w job = ?loop @ [Finished]" using assms(1) by (simp add: run_def)
  have r2: "run_ml w job = ?loop_ml @ [Finished]" using assms(1) by (simp add: run_ml_def)
  show "Error (''Error in classification setup: '' @ msg) \<notin> set (run w job)"
    unfolding r1 using batch_loop_no_setup_error [where R = "is_running w"] by simp
  have "Error (''Error in classification process: '' @ msg) \<notin> set ?loop_ml"
  proof (rule batch_loop_ml_no_setup_error)
    fix q ev
    assume "ev \<in> set (snd (?Wm q))"
    then show "\<exists>x. ev = Error (''Error processing '' @ x)" by (rule work_ml_error_shape)
  qed
  then show "Error (''Error in classification process: '' @ msg) \<notin> set (run_ml w job)"
    unfolding r2 by simp
qed

text \<open>
  Claim C6. In a run that is never stopped, with a positive batch size, take any image
  that was found. If it cannot be decoded (\<open>Image.open\<close> raises), if the inference
  fails (\<open>model.predict\<close> raises, the prediction is empty, or the predicted index has
  no label), or if writing the copy fails (\<open>img.save\<close> raises), the run emits an
  \<open>error\<close> signal that names this image (its base name in \<open>classification.py\<close>, its
  path in \<open>ml.py\<close>) and carries the message of the exception. If none of these
  fails, the run emits the \<open>result_update\<close> of this image, with the label of the
  largest prediction and that prediction to two decimals. All this holds whatever
  happens to the other images, of the same batch or of others: a failure ends nothing.
  The run ends with \<open>finished\<close>, and the error that reports a failed setup is not
  among its signals.
\<close>

theorem image_failure_does_not_end_run:
  fixes w :: "'m world" and job :: job and p :: string
  defines "input \<equiv> \<lambda>img.
      map (\<lambda>v. fl53 (real v / 255)) (img_pixels (resize (imaging.truncate w) img (224, 224)))"
    and "target \<equiv> \<lambda>cls. path_join (path_join (output_folder job) cls) (basename p)"
    and "reported \<equiv> \<lambda>e.
      Error (''Error processing '' @ basename p @ '': '' @ str e) \<in> set (run w job)
      \<and> Error (''Error processing '' @ p @ '': '' @ str e) \<in> set (run_ml w job)"
  assumes "run_setup w job = Inr (model, labels, image_files, bs)"
    and "0 < batch_size job"
    and "\<forall>q. is_running w q"
    and "p \<in> set image_files"
  shows "(\<forall>e. image_open w p = Inl e \<longrightarrow> reported e)
       \<and> (\<forall>img e. image_open w p = Inr img \<and> predict w model (input img) = Inl e
            \<longrightarrow> reported e)
       \<and> (\<forall>img preds e. image_open w p = Inr img \<and> predict w model (input img) = Inr preds
              \<and> np_argmax preds = Inl e
            \<longrightarrow> reported e)
       \<and> (\<forall>img preds idx. image_open w p = Inr img \<and> predict w model (input img) = Inr preds
              \<and> np_argmax preds = Inr idx \<and> length labels \<le> idx
            \<longrightarrow> reported (Exception ''list index out of range''))
       \<and> (\<forall>img preds idx e. image_open w p = Inr img \<and> predict w model (input img) = Inr preds
              \<and> np_argmax preds = Inr idx \<and> idx < length labels
              \<and> save_error w (target (labels ! idx)) img = Some e
            \<longrightarrow> Error (''Error processing '' @ basename p @ '': '' @ str e) \<in> set (run w job))
       \<and> (\<forall>img preds idx e. image_open w p = Inr img \<and> predict w model (input img) = Inr preds
              \<and> np_argmax preds = Inr idx \<and> idx < length labels
              \<and> save_error w (target (labels ! idx)) (resize (imaging.truncate w) img (224, 224))
                  = Some e
            \<longrightarrow> Error (''Error processing '' @ p @ '': '' @ str e) \<in> set (run_ml w job))
       \<and> (\<forall>img preds idx. image_open w p = Inr img \<and> predict w model (input img) = Inr preds
              \<and> np_argmax preds = Inr idx \<and> idx < length labels
              \<and> save_error w (target (labels ! idx)) img = None
            \<longrightarrow> ResultUpdate p (labels ! idx) (format_2f (preds ! idx)) \<in> set (run w job))
       \<and> (\<forall>img preds idx. image_open w p = Inr img \<and> predict w model (input img) = Inr preds
              \<and> np_argmax preds = Inr idx \<and> idx < length labels
              \<and> save_error w (target (labels ! idx)) (resize (imaging.truncate w) img (224, 224))
                  = None
            \<longrightarrow> ResultUpdate p (labels ! idx) (format_2f (preds ! idx)) \<in> set (run_ml w job))
       \<and> last (run w job) = Finished
       \<and> (\<forall>msg. Error (''Error in classification setup: '' @ msg) \<notin> set (run w job))
       \<and> last (run_ml w job) = Finished
       \<and> (\<forall>msg. Error (''Error in classification process: '' @ msg) \<notin> set (run_ml w job))"
proof -
  let ?t = "imaging.truncate w"
  let ?o = "output_folder job"
  note su = assms(4-7)
  have io: "image_open ?t = image_open w" and pr: "predict ?t = predict w"
    and se: "save_error ?t = save_error w"
    by (rule truncate_fields)+
  have both: "reported e"
    if "fst (process_image ?t ?o p model labels) = Inl e"
      and "process_image_ml ?t ?o p model labels
             = (None, [Error (''Error processing '' @ p @ '': '' @ str e)], [])" for e
    unfolding reported_def
    using run_reports(1) [OF su that(1)] run_ml_reports(1) [OF su that(2)] by (rule conjI)
  have c1: "\<forall>e. image_open w p = Inl e \<longrightarrow> reported e"
  proof (intro allI impI)
    fix e assume "image_open w p = Inl e"
    then have h: "image_open ?t p = Inl e" by (simp only: io)
    show "reported e"
      using process_image_decode_failure [OF h] process_image_ml_decode_failure [OF h]
      by (rule both)
  qed
  have c2: "\<forall>img e. image_open w p = Inr img \<and> predict w model (input img) = Inl e
            \<longrightarrow> reported e"
  proof (intro allI impI, elim conjE)
    fix img e
    assume "image_open w p = Inr img" "predict w model (input img) = Inl e"
    then have h: "image_open ?t p = Inr img"
      "predict ?t model (map (\<lambda>v. fl53 (real v / 255)) (img_pixels (resize ?t img (224, 224))))
         = Inl e"
      by (simp_all only: io pr input_def)
    show "reported e"
      using process_image_predict_failure [OF h] process_image_ml_predict_failure [OF h]
      by (rule both)
  qed
  have c3: "\<forall>img preds e. image_open w p = Inr img \<and> predict w model (input img) = Inr preds
              \<and> np_argmax preds = Inl e
            \<longrightarrow> reported e"
  proof (intro allI impI, elim conjE)
    fix img preds e
    assume "image_open w p = Inr img" "predict w model (input img) = Inr preds"
      and a: "np_argmax preds = Inl e"
    then have h: "image_open ?t p = Inr img"
      "predict ?t model (map (\<lambda>v. fl53 (real v / 255)) (img_pixels (resize ?t img (224, 224))))
         = Inr preds"
      by (simp_all only: io pr input_def)
    show "reported e"
      using process_image_argmax_failure [OF h a] process_image_ml_argmax_failure [OF h a]
      by (rule both)
  qed
  have c4: "\<forall>img preds idx. image_open w p = Inr img \<and> predict w model (input img) = Inr preds
              \<and> np_argmax preds = Inr idx \<and> length labels \<le> idx
            \<longrightarrow> reported (Exception ''list index out of range'')"
  proof (intro allI impI, elim conjE)
    fix img preds idx
    assume "image_open w p = Inr img" "predict w model (input img) = Inr preds"
      and a: "np_argmax preds = Inr idx" "length labels \<le> idx"
    then have h: "image_open ?t p = Inr img"
      "predict ?t model (map (\<lambda>v. fl53 (real v / 255)) (img_pixels (resize ?t img (224, 224))))
         = Inr preds"
      by (simp_all only: io pr input_def)
    show "reported (Exception ''list index out of range'')"
      using process_image_label_failure [OF h a] process_image_ml_label_failure [OF h a]
      by (rule both)
  qed
  have c5: "\<forall>img preds idx e. image_open w p = Inr img \<and> predict w model (input img) = Inr preds
              \<and> np_argmax preds = Inr idx \<and> idx < length labels
              \<and> save_error w (target (labels ! idx)) img = Some e
            \<longrightarrow> Error (''Error processing '' @ basename p @ '': '' @ str e) \<in> set (run w job)"
  proof (intro allI impI, elim conjE)
    fix img preds idx e
    assume "image_open w p = Inr img" "predict w model (input img) = Inr preds"
      and a: "np_argmax preds = Inr idx" "idx < length labels"
      and "save_error w (target (labels ! idx)) img = Some e"
    then have h: "image_open ?t p = Inr img"
      "predict ?t model (map (\<lambda>v. fl53 (real v / 255)) (img_pixels (resize ?t img (224, 224))))
         = Inr preds"
      and sv: "save_error ?t (path_join (path_join ?o (labels ! idx)) (basename p)) img = Some e"
      by (simp_all only: io pr se input_def target_def)
    from process_image_save_failure [OF h a sv]
    show "Error (''Error processing '' @ basename p @ '': '' @ str e) \<in> set (run w job)"
      by (rule run_reports(1) [OF su])
  qed
  have c6: "\<forall>img preds idx e. image_open w p = Inr img \<and> predict w model (input img) = Inr preds
              \<and> np_argmax preds = Inr idx \<and> idx < length labels
              \<and> save_error w (target (labels ! idx)) (resize ?t img (224, 224)) = Some e
            \<longrightarrow> Error (''Error processing '' @ p @ '': '' @ str e) \<in> set (run_ml w job)"
  proof (intro allI impI, elim conjE)
    fix img preds idx e
    assume "image_open w p = Inr img" "predict w model (input img) = Inr preds"
      and a: "np_argmax preds = Inr idx" "idx < length labels"
      and "save_error w (target (labels ! idx)) (resize ?t img (224, 224)) = Some e"
    then have h: "image_open ?t p = Inr img"
      "predict ?t model (map (\<lambda>v. fl53 (real v / 255)) (img_pixels (resize ?t img (224, 224))))
         = Inr preds"
      and sv: "save_error ?t (path_join (path_join ?o (labels ! idx)) (basename p))
                 (resize ?t img (224, 224)) = Some e"
      by (simp_all only: io pr se input_def target_def)
    from process_image_ml_save_failure [OF h a sv]
    show "Error (''Error processing '' @ p @ '': '' @ str e) \<in> set (run_ml w job)"
      by (rule run_ml_reports(1) [OF su])
  qed
  have c7: "\<forall>img preds idx. image_open w p = Inr img \<and> predict w model (input img) = Inr preds
              \<and> np_argmax preds = Inr idx \<and> idx < length labels
              \<and> save_error w (target (labels ! idx)) img = None
            \<longrightarrow> ResultUpdate p (labels ! idx) (format_2f (preds ! idx)) \<in> set (run w job)"
  proof (intro allI impI, elim conjE)
    fix img preds idx
    assume "image_open w p = Inr img" "predict w model (input img) = Inr preds"
      and a: "np_argmax preds = Inr idx" "idx < length labels"
      and "save_error w (target (labels ! idx)) img = None"
    then have h: "image_open ?t p = Inr img"
      "predict ?t model (map (\<lambda>v. fl53 (real v / 255)) (img_pixels (resize ?t img (224, 224))))
         = Inr preds"
      and sv: "save_error ?t (path_join (path_join ?o (labels ! idx)) (basename p)) img = None"
      by (simp_all only: io pr se input_def target_def)
    from process_image_success [OF h a sv]
    show "ResultUpdate p (labels ! idx) (format_2f (preds ! idx)) \<in> set (run w job)"
      by (rule run_reports(2) [OF su])
  qed
  have c8: "\<forall>img preds idx. image_open w p = Inr img \<and> predict w model (input img) = Inr preds
              \<and> np_argmax preds = Inr idx \<and> idx < length labels
              \<and> save_error w (target (labels ! idx)) (resize ?t img (224, 224)) = None
            \<longrightarrow> ResultUpdate p (labels ! idx) (format_2f (preds ! idx)) \<in> set (run_ml w job)"
  proof (intro allI impI, elim conjE)
    fix img preds idx
    assume "image_open w p = Inr img" "predict w model (input img) = Inr preds"
      and a: "np_argmax preds = Inr idx" "idx < length labels"
      and "save_error w (target (labels ! idx)) (resize ?t img (224, 224)) = None"
    then have h: "image_open ?t p = Inr img"
      "predict ?t model (map (\<lambda>v. fl53 (real v / 255)) (img_pixels (resize ?t img (224, 224))))
         = Inr preds"
      and sv: "save_error ?t (path_join (path_join ?o (labels ! idx)) (basename p))
                 (resize ?t img (224, 224)) = None"
      by (simp_all only: io pr se input_def target_def)
    from process_image_ml_success [OF h a sv]
    show "ResultUpdate p (labels ! idx) (format_2f (preds ! idx)) \<in> set (run_ml w job)"
      by (rule run_ml_reports(2) [OF su])
  qed
  have c9: "\<forall>msg. Error (''Error in classification setup: '' @ msg) \<notin> set (run w job)"
    using run_no_setup_error(1) [OF assms(4)] by (intro allI)
  have c10: "\<forall>msg. Error (''Error in classification process: '' @ msg) \<notin> set (run_ml w job)"
    using run_no_setup_error(2) [OF assms(4)] by (intro allI)
  from c1 c2 c3 c4 c5 c6 c7 c8 run_ends_finished(2) [of w job] c9 run_ends_finished(4) [of w job] c10
  show ?thesis by (intro conjI)
qed

theorem image_failure_does_not_end_run_witness:
  "run_setup example_world example_job
     = Inr ((), [''dog'', ''cat''], [''in/a.jpg'', ''in/b.jpg'', ''in/c.jpg''],
            [[''in/a.jpg'', ''in/b.jpg''], [''in/c.jpg'']])
   \<and> 0 < batch_size example_job
   \<and> (\<forall>q. is_running example_world q)
   \<and> ''in/b.jpg'' \<in> set [''in/a.jpg'', ''in/b.jpg'', ''in/c.jpg'']
   \<and> image_open example_world ''in/b.jpg'' = Inl (Exception ''cannot identify image file'')
   \<and> Error ''Error processing b.jpg: cannot identify image file''
       \<in> set (run example_world example_job)
   \<and> Error ''Error processing in/b.jpg: cannot identify image file''
       \<in> set (run_ml example_world example_job)
   \<and> ''in/c.jpg'' \<in> set [''in/a.jpg'', ''in/b.jpg'', ''in/c.jpg'']
   \<and> image_open example_world ''in/c.jpg''
       = Inr \<lparr>img_width = 2, img_height = 1, img_pixels = [255, 0, 0, 0, 0, 255]\<rparr>
   \<and> save_error example_world ''out/cat/c.jpg''
         \<lparr>img_width = 2, img_height = 1, img_pixels = [255, 0, 0, 0, 0, 255]\<rparr> = None
   \<and> ResultUpdate ''in/c.jpg'' ''cat'' ''0.88'' \<in> set (run example_world example_job)
   \<and> ResultUpdate ''in/c.jpg'' ''cat'' ''0.88'' \<in> set (run_ml example_world example_job)
   \<and> ''in/a.jpg'' \<in> set [''in/a.jpg'', ''in/b.jpg'', ''in/c.jpg'']
   \<and> save_error
         (example_world\<lparr>save_error := (\<lambda>path img. if path = ''out/cat/a.jpg''
             then Some (Exception ''No space left on device'') else None)\<rparr>)
         ''out/cat/a.jpg''
         \<lparr>img_width = 2, img_height = 1, img_pixels = [255, 0, 0, 0, 0, 255]\<rparr>
       = Some (Exception ''No space left on device'')
   \<and> Error ''Error processing a.jpg: No space left on device''
       \<in> set (run (example_world\<lparr>save_error := (\<lambda>path img. if path = ''out/cat/a.jpg''
             then Some (Exception ''No space left on device'') else None)\<rparr>) example_job)
   \<and> Error ''Error processing in/a.jpg: No space left on device''
       \<in> set (run_ml (example_world\<lparr>save_error := (\<lambda>path img. if path = ''out/cat/a.jpg''
             then Some (Exception ''No space left on device'') else None)\<rparr>) example_job)
   \<and> ResultUpdate ''in/c.jpg'' ''cat'' ''0.88''
       \<in> set (run (example_world\<lparr>save_error := (\<lambda>path img. if path = ''out/cat/a.jpg''
             then Some (Exception ''No space left on device'') else None)\<rparr>) example_job)"
proof -
  let ?full = "example_world\<lparr>save_error := (\<lambda>path img. if path = ''out/cat/a.jpg''
             then Some (Exception ''No space left on device'') else None)\<rparr>"
  let ?img = "\<lparr>img_width = 2, img_height = 1, img_pixels = [255, 0, 0, 0, 0, 255]\<rparr>"
  let ?small = "\<lambda>w. resize (imaging.truncate w) ?img (224, 224)"
  let ?input = "\<lambda>w. map (\<lambda>v. fl53 (real v / 255)) (img_pixels (?small w))"
  let ?files = "[''in/a.jpg'', ''in/b.jpg'', ''in/c.jpg'']"
  let ?labels = "[''dog'', ''cat'']"
  let ?preds = "[1 / 8, 7 / 8 :: real]"
  have s: "run_setup example_world example_job
     = Inr ((), ?labels, ?files, [[''in/a.jpg'', ''in/b.jpg''], [''in/c.jpg'']])"
    by (simp add: eval_run)
  have s': "run_setup ?full example_job
     = Inr ((), ?labels, ?files, [[''in/a.jpg'', ''in/b.jpg''], [''in/c.jpg'']])"
    by (simp add: eval_run)
  have b: "0 < batch_size example_job" by (simp add: example_job_def)
  have r: "\<forall>q. is_running example_world q" by (simp add: example_world_def)
  have r': "\<forall>q. is_running ?full q" by (simp add: example_world_def)
  have ma: "''in/a.jpg'' \<in> set ?files" and mb: "''in/b.jpg'' \<in> set ?files"
    and mc: "''in/c.jpg'' \<in> set ?files" by simp_all
  have lab: "?labels ! 1 = ''cat''" by simp
  have fmt: "format_2f (?preds ! 1) = ''0.88''" by (simp add: eval_run)
  have bn: "basename ''in/a.jpg'' = ''a.jpg''" "basename ''in/b.jpg'' = ''b.jpg''"
    by (simp_all add: basename_def)
  have tg: "path_join (path_join (output_folder example_job) (?labels ! 1)) (basename ''in/c.jpg'')
        = ''out/cat/c.jpg''"
    "path_join (path_join (output_folder example_job) (?labels ! 1)) (basename ''in/a.jpg'')
        = ''out/cat/a.jpg''"
    by (simp_all add: path_join_def basename_def example_job_def)
  have ob: "image_open example_world ''in/b.jpg'' = Inl (Exception ''cannot identify image file'')"
    by (simp add: example_world_def)
  have oc: "image_open example_world ''in/c.jpg'' = Inr ?img" by (simp add: example_world_def)
  have oa: "image_open ?full ''in/a.jpg'' = Inr ?img" by (simp add: example_world_def)
  have oc': "image_open ?full ''in/c.jpg'' = Inr ?img" by (simp add: example_world_def)
  have pd: "predict example_world () (?input example_world) = Inr ?preds"
    by (simp add: example_world_def)
  have pd': "predict ?full () (?input ?full) = Inr ?preds"
    by (simp add: example_world_def)
  have am: "np_argmax ?preds = Inr 1" by (simp add: np_argmax_def)
  have ix: "1 < length ?labels" by simp
  have sc: "save_error example_world ''out/cat/c.jpg'' ?img = None"
    by (simp add: example_world_def)
  have sc_ml: "save_error example_world ''out/cat/c.jpg'' (?small example_world) = None"
    by (simp add: example_world_def)
  have sa: "save_error ?full ''out/cat/a.jpg'' ?img = Some (Exception ''No space left on device'')"
    by simp
  have sa_ml: "save_error ?full ''out/cat/a.jpg'' (?small ?full)
      = Some (Exception ''No space left on device'')"
    by simp
  have sc': "save_error ?full ''out/cat/c.jpg'' ?img = None" by simp
  note tb = image_failure_does_not_end_run [OF s b r mb]
  note tc = image_failure_does_not_end_run [OF s b r mc]
  note ta = image_failure_does_not_end_run [OF s' b r' ma]
  note tc' = image_failure_does_not_end_run [OF s' b r' mc]
  from tb [THEN conjunct1, THEN spec, of "Exception ''cannot identify image file''"] ob
  have eb: "Error (''Error processing '' @ basename ''in/b.jpg'' @ '': ''
                     @ str (Exception ''cannot identify image file''))
              \<in> set (run example_world example_job)
          \<and> Error (''Error processing '' @ ''in/b.jpg'' @ '': ''
                     @ str (Exception ''cannot identify image file''))
              \<in> set (run_ml example_world example_job)"
    by (rule mp)
  from eb have eb1: "Error ''Error processing b.jpg: cannot identify image file''
      \<in> set (run example_world example_job)"
    by (simp add: bn)
  from eb have eb2: "Error ''Error processing in/b.jpg: cannot identify image file''
      \<in> set (run_ml example_world example_job)"
    by simp
  have pc: "image_open example_world ''in/c.jpg'' = Inr ?img
      \<and> predict example_world () (?input example_world) = Inr ?preds
      \<and> np_argmax ?preds = Inr 1 \<and> 1 < length ?labels
      \<and> save_error example_world
           (path_join (path_join (output_folder example_job) (?labels ! 1)) (basename ''in/c.jpg''))
           ?img = None"
    using oc pd am ix sc by (simp only: tg simp_thms)
  have pc_ml: "image_open example_world ''in/c.jpg'' = Inr ?img
      \<and> predict example_world () (?input example_world) = Inr ?preds
      \<and> np_argmax ?preds = Inr 1 \<and> 1 < length ?labels
      \<and> save_error example_world
           (path_join (path_join (output_folder example_job) (?labels ! 1)) (basename ''in/c.jpg''))
           (?small example_world) = None"
    using oc pd am ix sc_ml by (simp only: tg simp_thms)
  from tc [THEN conjunct2, THEN conjunct2, THEN conjunct2, THEN conjunct2, THEN conjunct2,
           THEN conjunct2, THEN conjunct1,
           THEN spec, of ?img, THEN spec, of ?preds, THEN spec, of 1] pc
  have "ResultUpdate ''in/c.jpg'' (?labels ! 1) (format_2f (?preds ! 1))
      \<in> set (run example_world example_job)"
    by (rule mp)
  then have ec1: "ResultUpdate ''in/c.jpg'' ''cat'' ''0.88'' \<in> set (run example_world example_job)"
    by (simp only: lab fmt)
  from tc [THEN conjunct2, THEN conjunct2, THEN conjunct2, THEN conjunct2, THEN conjunct2,
           THEN conjunct2, THEN conjunct2, THEN conjunct1,
           THEN spec, of ?img, THEN spec, of ?preds, THEN spec, of 1] pc_ml
  have "ResultUpdate ''in/c.jpg'' (?labels ! 1) (format_2f (?preds ! 1))
      \<in> set (run_ml example_world example_job)"
    by (rule mp)
  then have ec2: "ResultUpdate ''in/c.jpg'' ''cat'' ''0.88''
      \<in> set (run_ml example_world example_job)"
    by (simp only: lab fmt)
  have pa: "image_open ?full ''in/a.jpg'' = Inr ?img
      \<and> predict ?full () (?input ?full) = Inr ?preds
      \<and> np_argmax ?preds = Inr 1 \<and> 1 < length ?labels
      \<and> save_error ?full
           (path_join (path_join (output_folder example_job) (?labels ! 1)) (basename ''in/a.jpg''))
           ?img = Some (Exception ''No space left on device'')"
    using oa pd' am ix sa by (simp only: tg simp_thms)
  have pa_ml: "image_open ?full ''in/a.jpg'' = Inr ?img
      \<and> predict ?full () (?input ?full) = Inr ?preds
      \<and> np_argmax ?preds = Inr 1 \<and> 1 < length ?labels
      \<and> save_error ?full
           (path_join (path_join (output_folder example_job) (?labels ! 1)) (basename ''in/a.jpg''))
           (?small ?full) = Some (Exception ''No space left on device'')"
    using oa pd' am ix sa_ml by (simp only: tg simp_thms)
  from ta [THEN conjunct2, THEN conjunct2, THEN conjunct2, THEN conjunct2, THEN conjunct1,
           THEN spec, of ?img, THEN spec, of ?preds, THEN spec, of 1,
           THEN spec, of "Exception ''No space left on device''"] pa
  have "Error (''Error processing '' @ basename ''in/a.jpg'' @ '': ''
                 @ str (Exception ''No space left on device''))
      \<in> set (run ?full example_job)"
    by (rule mp)
  then have ea1: "Error ''Error processing a.jpg: No space left on device''
      \<in> set (run ?full example_job)"
    by (simp add: bn)
  from ta [THEN conjunct2, THEN conjunct2, THEN conjunct2, THEN conjunct2, THEN conjunct2,
           THEN conjunct1,
           THEN spec, of ?img, THEN spec, of ?preds, THEN spec, of 1,
           THEN spec, of "Exception ''No space left on device''"] pa_ml
  have "Error (''Error processing '' @ ''in/a.jpg'' @ '': ''
                 @ str (Exception ''No space left on device''))
      \<in> set (run_ml ?full example_job)"
    by (rule mp)
  then have ea2: "Error ''Error processing in/a.jpg: No space left on device''
      \<in> set (run_ml ?full example_job)"
    by simp
  have pc': "image_open ?full ''in/c.jpg'' = Inr ?img
      \<and> predict ?full () (?input ?full) = Inr ?preds
      \<and> np_argmax ?preds = Inr 1 \<and> 1 < length ?labels
      \<and> save_error ?full
           (path_join (path_join (output_folder example_job) (?labels ! 1)) (basename ''in/c.jpg''))
           ?img = None"
    using oc' pd' am ix sc' by (simp only: tg simp_thms)
  from tc' [THEN conjunct2, THEN conjunct2, THEN conjunct2, THEN conjunct2, THEN conjunct2,
           THEN conjunct2, THEN conjunct1,
           THEN spec, of ?img, THEN spec, of ?preds, THEN spec, of 1] pc'
  have "ResultUpdate ''in/c.jpg'' (?labels ! 1) (format_2f (?preds ! 1))
      \<in> set (run ?full example_job)"
    by (rule mp)
  then have ec3: "ResultUpdate ''in/c.jpg'' ''cat'' ''0.88'' \<in> set (run ?full example_job)"
    by (simp only: lab fmt)
  from s b r mb ob eb1 eb2 mc oc sc ec1 ec2 ma sa ea1 ea2 ec3 show ?thesis by (intro conjI)
qed

subsection \<open>The processed count\<close>

lemma length_filter_not:
  "length (filter (\<lambda>x. \<not> P x) xs) = length xs - length (filter P xs)"
  using sum_length_filter_compl [of P xs] by simp

lemma batches_filter_le:
  assumes "batches xs B = Inr bs"
  shows "length (filter P (concat bs)) \<le> length (filter P xs)"
  using batches_cases [OF assms] by auto

lemma filter_progress_finished:
  "filter is_progress (evs @ [Finished]) = filter is_progress evs"
  by simp

text \<open>
  Claim C9. The count that \<open>progress_update\<close> carries counts the images classified
  with success and nothing else. With \<open>N\<close> images found, of which \<open>F\<close> fail, the
  emissions of a run are \<open>(1, N), (2, N), \<dots>, (m, N)\<close> for some \<open>m\<close> that is at most
  \<open>N - F\<close>: each count is at most the total, and each emission is one more than the one
  before. A run that is not stopped (with a positive batch size) has \<open>m = N - F\<close>, so
  its last emission is \<open>(N - F, N)\<close>, short of \<open>N\<close> when an image failed. Both copies
  of \<open>run\<close> behave so.
\<close>

theorem progress_counts_successes:
  assumes "run_setup w job = Inr (model, labels, image_files, bs)"
  shows "(\<exists>m. filter is_progress (run w job)
               = map (\<lambda>i. ProgressUpdate (Suc i) (length image_files)) [0..<m]
            \<and> m \<le> length image_files
                  - length (filter (\<lambda>p. isl (fst (process_image (imaging.truncate w)
                                (output_folder job) p model labels))) image_files)
            \<and> ((\<forall>q. is_running w q) \<and> 0 < batch_size job \<longrightarrow>
                 m = length image_files
                  - length (filter (\<lambda>p. isl (fst (process_image (imaging.truncate w)
                                (output_folder job) p model labels))) image_files)))
       \<and> (\<exists>m. filter is_progress (run_ml w job)
               = map (\<lambda>i. ProgressUpdate (Suc i) (length image_files)) [0..<m]
            \<and> m \<le> length image_files
                  - length (filter (\<lambda>p. fst (process_image_ml (imaging.truncate w)
                                (output_folder job) p model labels) = None) image_files)
            \<and> ((\<forall>q. is_running w q) \<and> 0 < batch_size job \<longrightarrow>
                 m = length image_files
                  - length (filter (\<lambda>p. fst (process_image_ml (imaging.truncate w)
                                (output_folder job) p model labels) = None) image_files)))"
proof -
  let ?W = "\<lambda>p. fst (process_image (imaging.truncate w) (output_folder job) p model labels)"
  let ?Wm = "\<lambda>p. (let (r, evs, files) =
                        process_image_ml (imaging.truncate w) (output_folder job) p model labels
                  in (r, evs))"
  let ?N = "length image_files"
  let ?loop = "batch_loop (is_running w) (completion_order w) ?W ?N 0 bs 0"
  let ?loop_ml = "batch_loop_ml (is_running w) (completion_order w) ?Wm ?N 0 bs 0"
  let ?ok = "\<lambda>p. \<not> isl (?W p)"
  let ?okm = "\<lambda>p. fst (?Wm p) \<noteq> None"
  have r1: "run w job = ?loop @ [Finished]" using assms(1) by (simp add: run_def)
  have r2: "run_ml w job = ?loop_ml @ [Finished]" using assms(1) by (simp add: run_ml_def)
  note b = run_setup_facts(2) [OF assms]
  have fst_ml: "fst (?Wm p) = fst (process_image_ml (imaging.truncate w)
                                (output_folder job) p model labels)" for p
    by (simp add: case_prod_beta)
  have n1: "length (filter ?ok image_files)
      = ?N - length (filter (\<lambda>p. isl (?W p)) image_files)"
    by (rule length_filter_not)
  have n2: "length (filter ?okm image_files)
      = ?N - length (filter (\<lambda>p. fst (process_image_ml (imaging.truncate w)
                                (output_folder job) p model labels) = None) image_files)"
    using length_filter_not [of "\<lambda>p. fst (?Wm p) = None" image_files]
    by (simp only: fst_ml)
  have first: "\<exists>m. filter is_progress (run w job)
               = map (\<lambda>i. ProgressUpdate (Suc i) ?N) [0..<m]
            \<and> m \<le> ?N - length (filter (\<lambda>p. isl (?W p)) image_files)
            \<and> ((\<forall>q. is_running w q) \<and> 0 < batch_size job \<longrightarrow>
                 m = ?N - length (filter (\<lambda>p. isl (?W p)) image_files))"
  proof -
    from batch_loop_progress [where R = "is_running w" and C = "completion_order w"
        and W = ?W and N = ?N and b = 0 and bs = bs and c = 0]
    obtain m where m: "filter is_progress ?loop = map (\<lambda>i. ProgressUpdate (0 + Suc i) ?N) [0..<m]"
      "m \<le> length (filter ?ok (concat bs))"
      "(\<forall>q. is_running w q) \<longrightarrow> m = length (filter ?ok (concat bs))"
      by (elim exE conjE)
    have one: "filter is_progress (run w job) = map (\<lambda>i. ProgressUpdate (Suc i) ?N) [0..<m]"
      unfolding r1 filter_progress_finished m(1) by simp
    have two: "m \<le> ?N - length (filter (\<lambda>p. isl (?W p)) image_files)"
      using m(2) batches_filter_le [OF b, of ?ok] n1 by simp
    have three: "m = ?N - length (filter (\<lambda>p. isl (?W p)) image_files)"
      if "(\<forall>q. is_running w q) \<and> 0 < batch_size job"
    proof -
      from that have "concat bs = image_files" using run_setup_batches(2) [OF assms] by simp
      with that m(3) n1 show ?thesis by simp
    qed
    from one two three show ?thesis by (intro exI [of _ m] conjI impI)
  qed
  have second: "\<exists>m. filter is_progress (run_ml w job)
               = map (\<lambda>i. ProgressUpdate (Suc i) ?N) [0..<m]
            \<and> m \<le> ?N - length (filter (\<lambda>p. fst (process_image_ml (imaging.truncate w)
                                (output_folder job) p model labels) = None) image_files)
            \<and> ((\<forall>q. is_running w q) \<and> 0 < batch_size job \<longrightarrow>
                 m = ?N - length (filter (\<lambda>p. fst (process_image_ml (imaging.truncate w)
                                (output_folder job) p model labels) = None) image_files))"
  proof -
    have quiet: "filter is_progress (snd (?Wm p)) = []" for p by (rule work_ml_no_progress)
    from batch_loop_ml_progress [where R = "is_running w" and C = "completion_order w"
        and W = ?Wm and N = ?N and b = 0 and bs = bs and c = 0, OF quiet]
    obtain m where m: "filter is_progress ?loop_ml = map (\<lambda>i. ProgressUpdate (0 + Suc i) ?N) [0..<m]"
      "m \<le> length (filter ?okm (concat bs))"
      "(\<forall>q. is_running w q) \<longrightarrow> m = length (filter ?okm (concat bs))"
      by (elim exE conjE)
    have one: "filter is_progress (run_ml w job) = map (\<lambda>i. ProgressUpdate (Suc i) ?N) [0..<m]"
      unfolding r2 filter_progress_finished m(1) by simp
    have two: "m \<le> ?N - length (filter (\<lambda>p. fst (process_image_ml (imaging.truncate w)
                                (output_folder job) p model labels) = None) image_files)"
      using m(2) batches_filter_le [OF b, of ?okm] n2 by simp
    have three: "m = ?N - length (filter (\<lambda>p. fst (process_image_ml (imaging.truncate w)
                                (output_folder job) p model labels) = None) image_files)"
      if "(\<forall>q. is_running w q) \<and> 0 < batch_size job"
    proof -
      from that have "concat bs = image_files" using run_setup_batches(2) [OF assms] by simp
      with that m(3) n2 show ?thesis by simp
    qed
    from one two three show ?thesis by (intro exI [of _ m] conjI impI)
  qed
  from first second show ?thesis by (rule conjI)
qed

theorem progress_counts_successes_witness:
  "run_setup example_world example_job
     = Inr ((), [''dog'', ''cat''], [''in/a.jpg'', ''in/b.jpg'', ''in/c.jpg''],
            [[''in/a.jpg'', ''in/b.jpg''], [''in/c.jpg'']])
   \<and> (\<forall>q. is_running example_world q) \<and> 0 < batch_size example_job
   \<and> length (filter (\<lambda>p. isl (fst (process_image (imaging.truncate example_world)
                (output_folder example_job) p () [''dog'', ''cat''])))
         [''in/a.jpg'', ''in/b.jpg'', ''in/c.jpg'']) = 1
   \<and> filter is_progress (run example_world example_job)
     = [ProgressUpdate 1 3, ProgressUpdate 2 3]"
proof -
  have s: "run_setup example_world example_job
     = Inr ((), [''dog'', ''cat''], [''in/a.jpg'', ''in/b.jpg'', ''in/c.jpg''],
            [[''in/a.jpg'', ''in/b.jpg''], [''in/c.jpg'']])"
    by (simp add: eval_run)
  have r: "\<forall>q. is_running example_world q" by (simp add: example_world_def)
  have b: "0 < batch_size example_job" by (simp add: example_job_def)
  have f: "length (filter (\<lambda>p. isl (fst (process_image (imaging.truncate example_world)
                (output_folder example_job) p () [''dog'', ''cat''])))
         [''in/a.jpg'', ''in/b.jpg'', ''in/c.jpg'']) = 1"
    by (simp add: eval_run)
  from progress_counts_successes [OF s, THEN conjunct1]
  obtain m where m: "filter is_progress (run example_world example_job)
               = map (\<lambda>i. ProgressUpdate (Suc i) (length [''in/a.jpg'', ''in/b.jpg'', ''in/c.jpg'']))
                   [0..<m]"
    "(\<forall>q. is_running example_world q) \<and> 0 < batch_size example_job \<longrightarrow>
       m = length [''in/a.jpg'', ''in/b.jpg'', ''in/c.jpg'']
            - length (filter (\<lambda>p. isl (fst (process_image (imaging.truncate example_world)
                (output_folder example_job) p () [''dog'', ''cat''])))
              [''in/a.jpg'', ''in/b.jpg'', ''in/c.jpg''])"
    by (elim exE conjE)
  from m(2) r b have "m = length [''in/a.jpg'', ''in/b.jpg'', ''in/c.jpg''] - 1"
    by (simp only: f simp_thms)
  then have "m = Suc (Suc 0)" by simp
  with m(1) have v: "filter is_progress (run example_world example_job)
     = [ProgressUpdate 1 3, ProgressUpdate 2 3]"
    by (simp add: numeral_2_eq_2 numeral_3_eq_3)
  from s r b f v show ?thesis by (intro conjI)
qed

end
